theory Spec2Isabelle
  imports Main "HOL-Library.AList" "HOL-Library.Multiset"
begin

section \<open>Python built-ins used by cc2svn.py\<close>

text \<open>
  The program is Python 2: a \<open>str\<close> is a byte string, so \<open>len\<close> counts bytes and a
  \<^typ>\<open>string\<close> (a list of 8-bit characters) models it exactly.  The model is for a POSIX
  host: \<open>os.sep\<close> is \<open>/\<close> and \<open>os.path\<close> is \<open>posixpath\<close>.
\<close>

definition digit_char :: "nat \<Rightarrow> char" where
  "digit_char d = ''0123456789'' ! (d mod 10)"

text \<open>\<open>str(n)\<close> for a non-negative integer: its decimal digits.\<close>

function str_nat :: "nat \<Rightarrow> string" where
  "str_nat n = (if n < 10 then [digit_char n] else str_nat (n div 10) @ [digit_char n])"
  by pat_completeness auto
termination
  by (relation "measure (\<lambda>n. n)") auto

declare str_nat.simps [simp del]

text \<open>\<open>str(i)\<close> for a Python integer.\<close>

definition str_int :: "int \<Rightarrow> string" where
  "str_int i = (if i < 0 then ''-'' @ str_nat (nat (- i)) else str_nat (nat i))"

text \<open>
  A Python 2 dictionary with string keys is kept as an association list with distinct
  keys, in the order the keys were first inserted.  \<open>d[k] = v\<close> is \<^const>\<open>AList.update\<close>.
  Python 2 iterates a dictionary in an order of its own (it depends on the hashes of the
  keys and on the insertions made), which the language leaves open: the order is the
  parameter \<open>ord\<close>, a function from the keys in insertion order to the keys in iteration
  order.
\<close>

definition iteritems :: "(string list \<Rightarrow> string list) \<Rightarrow> (string \<times> 'v) list \<Rightarrow> (string \<times> 'v) list" where
  "iteritems ord d = List.map_filter (\<lambda>k. map_option (Pair k) (map_of d k)) (ord (map fst d))"

section \<open>SvnProperties\<close>

record SvnProperties =
  keyset :: "(string \<times> string) list"
  totalLen :: int

text \<open>\<open>SvnProperties.__init__\<close>: an empty key set, and the length of \<open>PROPS-END\<close> and its newline.\<close>

definition SvnProperties_init :: SvnProperties where
  "SvnProperties_init = \<lparr>keyset = [], totalLen = 10\<rparr>"

definition reset :: "SvnProperties \<Rightarrow> SvnProperties" where
  "reset p = p\<lparr>keyset := [], totalLen := 10\<rparr>"

definition calcPropLength :: "string \<Rightarrow> string \<Rightarrow> int" where
  "calcPropLength key val =
     (let klen = int (length (''K '' @ str_nat (length key) @ ''\<newline>'' @ key @ ''\<newline>''));
          vlen = int (length (''V '' @ str_nat (length val) @ ''\<newline>'' @ val @ ''\<newline>''))
      in klen + vlen)"

text \<open>\<open>SvnProperties.set\<close>: the length of a key already present is taken off first.\<close>

definition set_prop :: "string \<Rightarrow> string \<Rightarrow> SvnProperties \<Rightarrow> SvnProperties" where
  "set_prop key val p =
     (let p1 = (case map_of (keyset p) key of
                  Some old \<Rightarrow> p\<lparr>totalLen := totalLen p - calcPropLength key old\<rparr>
                | None \<Rightarrow> p);
          p2 = p1\<lparr>keyset := AList.update key val (keyset p1)\<rparr>
      in p2\<lparr>totalLen := totalLen p2 + calcPropLength key val\<rparr>)"

text \<open>\<open>writeLength\<close>: the single string it writes.\<close>

definition writeLength :: "SvnProperties \<Rightarrow> string" where
  "writeLength p = ''Prop-content-length: '' @ str_int (totalLen p) @ ''\<newline>''"

text \<open>
  \<open>writeContent\<close>: the strings it writes, one list element for each call of \<open>out.write\<close>.
  An empty value is not written at all (\<open>if value: out.write(value)\<close>).
\<close>

definition writeProp :: "string \<times> string \<Rightarrow> string list" where
  "writeProp kv =
     [''K '' @ str_nat (length (fst kv)) @ ''\<newline>'',
      fst kv @ ''\<newline>'',
      ''V '' @ str_nat (length (snd kv)) @ ''\<newline>'']
     @ (if snd kv \<noteq> [] then [snd kv] else [])
     @ [''\<newline>'']"

definition writeContent :: "(string list \<Rightarrow> string list) \<Rightarrow> SvnProperties \<Rightarrow> string list" where
  "writeContent ord p = concat (map writeProp (iteritems ord (keyset p))) @ [''PROPS-END\<newline>'']"

text \<open>\<open>SvnProperties.dump\<close>, used for the properties of a revision.\<close>

definition dump :: "(string list \<Rightarrow> string list) \<Rightarrow> SvnProperties \<Rightarrow> string list" where
  "dump ord p =
     [writeLength p, ''Content-length: '' @ str_int (totalLen p) @ ''\<newline>'', ''\<newline>'']
     @ writeContent ord p @ [''\<newline>\<newline>'']"

text \<open>A caller's use of a property set: any sequence of \<open>set\<close> and \<open>reset\<close> calls.\<close>

datatype prop_op = Set string string | Reset

fun apply_prop_op :: "SvnProperties \<Rightarrow> prop_op \<Rightarrow> SvnProperties" where
  "apply_prop_op p (Set key val) = set_prop key val p"
| "apply_prop_op p Reset = reset p"

definition run_prop_ops :: "prop_op list \<Rightarrow> SvnProperties \<Rightarrow> SvnProperties" where
  "run_prop_ops ops p = foldl apply_prop_op p ops"

subsection \<open>The invariant of a property set\<close>

text \<open>The bytes of the key/value block of one dictionary.\<close>

definition block_len :: "(string \<times> string) list \<Rightarrow> int" where
  "block_len kvs = (\<Sum>kv\<leftarrow>kvs. calcPropLength (fst kv) (snd kv))"

definition props_ok :: "SvnProperties \<Rightarrow> bool" where
  "props_ok p \<longleftrightarrow> distinct (map fst (keyset p)) \<and> totalLen p = 10 + block_len (keyset p)"

section \<open>Errors and the environment\<close>

text \<open>
  An exception that leaves a function is a value of \<open>error\<close>.  A function that changes
  the converter returns the state it leaves behind together with the exception, if any:
  Python keeps every assignment made before the exception was raised.
\<close>

datatype error =
    SystemExit
  | NameError
  | TypeError
  | KeyError
  | UnicodeError
  | RuntimeError
  | ZeroDivisionError
  | Exception

text \<open>
  The module's globals that are read from the configuration file, and the capabilities
  the program takes from outside (the codec of \<open>ENCODING\<close>, \<open>cleartool\<close> and the cache
  behind \<open>Converter.getFile\<close>, the operator at the console, \<open>hashlib\<close>, \<open>fnmatch\<close>,
  \<open>time.strftime\<close>, and the iteration order of dictionaries).  \<open>PUT_CCLINKS_TO_BRANCH\<close>
  is read by \<open>Converter.process\<close> but assigned nowhere in cc2svn.py: \<open>None\<close> is the
  program as it stands (reading the name raises \<open>NameError\<close>), \<open>Some b\<close> a run in which
  the name is bound to \<open>b\<close>.
\<close>

record config =
  DUMP_SINCE_DATE :: "int list option"
  SVN_CREATE_BRANCHES_TAGS_DIRS :: "string option"
  IGNORE_CHILD_BRANCH_WARNING :: string
  PUT_CCLINKS_TO_BRANCH :: "string option"
  toUTF8 :: "string \<Rightarrow> string option"
  getFile :: "string \<Rightarrow> string \<Rightarrow> bool \<Rightarrow> error + string"
  askYesNo :: "string \<Rightarrow> bool"
  md5_hexdigest :: "string \<Rightarrow> string"
  fnmatch :: "string \<Rightarrow> string \<Rightarrow> bool"
  strftime :: "int list \<Rightarrow> string"
  dict_order :: "string list \<Rightarrow> string list"

text \<open>
  Python compares two \<open>time.struct_time\<close> values as tuples, item by item; a
  \<open>struct_time\<close> is the list of its nine items.
\<close>

fun seq_gt :: "int list \<Rightarrow> int list \<Rightarrow> bool" where
  "seq_gt [] ys = False"
| "seq_gt (x # xs) [] = True"
| "seq_gt (x # xs) (y # ys) = (y < x \<or> (x = y \<and> seq_gt xs ys))"

text \<open>\<open>s.startswith(d)\<close>.\<close>

definition startswith :: "string \<Rightarrow> string \<Rightarrow> bool" where
  "startswith s d = (take (length d) s = d)"

text \<open>\<open>posixpath.dirname\<close> and \<open>posixpath.basename\<close>.\<close>

definition dirname :: "string \<Rightarrow> string" where
  "dirname p =
     (let head = rev (dropWhile (\<lambda>c. c \<noteq> CHR ''/'') (rev p))
      in if head \<noteq> [] \<and> head \<noteq> replicate (length head) (CHR ''/'')
         then rev (dropWhile (\<lambda>c. c = CHR ''/'') (rev head))
         else head)"

definition basename :: "string \<Rightarrow> string" where
  "basename p = rev (takeWhile (\<lambda>c. c \<noteq> CHR ''/'') (rev p))"

text \<open>
  \<open>str.splitlines(keepends)\<close> of a Python 2 byte string: a line ends at \<open>\n\<close>, at
  \<open>\r\<close> or at \<open>\r\n\<close>; no empty line follows the last line end.  The second argument
  holds the current line, reversed.
\<close>

fun splitlines_from :: "bool \<Rightarrow> string \<Rightarrow> string \<Rightarrow> string list" where
  "splitlines_from keepends acc [] = (if acc = [] then [] else [rev acc])"
| "splitlines_from keepends acc (c # cs) =
     (if c = CHR 0x0A then
        rev (if keepends then c # acc else acc) # splitlines_from keepends [] cs
      else if c = CHR 0x0D then
        (case cs of
           [] \<Rightarrow> [rev (if keepends then c # acc else acc)]
         | d # ds \<Rightarrow>
             if d = CHR 0x0A then
               rev (if keepends then d # c # acc else acc) # splitlines_from keepends [] ds
             else rev (if keepends then c # acc else acc) # splitlines_from keepends [] cs)
      else splitlines_from keepends (c # acc) cs)"

definition splitlines :: "bool \<Rightarrow> string \<Rightarrow> string list" where
  "splitlines keepends s = splitlines_from keepends [] s"

section \<open>Reading a file backwards: rblocks and rlines\<close>

text \<open>An open file: the mode it was opened with and its bytes.\<close>

record pyfile =
  mode :: string
  content :: string

text \<open>
  \<open>rblocks\<close> is a generator: the list is what it yields, in order.  The short block at
  the end of the file comes first (it is empty when the size is a multiple of the block
  size), then the full blocks from the last to the first.  The exception for a text-mode
  file is raised when the first block is asked for.
\<close>

definition rblocks :: "pyfile \<Rightarrow> nat \<Rightarrow> error + string list" where
  "rblocks f blocksize =
     (if CHR ''b'' \<notin> set (mode f) \<and> CHR ''B'' \<notin> set (mode f) then Inl Exception
      else if blocksize = 0 then Inl ZeroDivisionError
      else
        let size = length (content f);
            fullblocks = size div blocksize;
            lastblock = size mod blocksize
        in Inr (drop (size - lastblock) (content f)
                # map (\<lambda>i. take blocksize (drop (i * blocksize) (content f))) (rev [0..<fullblocks])))"

text \<open>
  The loop of \<open>rlines\<close> over the blocks, with the buffer \<open>buf\<close>: what it yields, and
  the buffer as the last item.
\<close>

fun rlines_loop :: "bool \<Rightarrow> string \<Rightarrow> string list \<Rightarrow> string list" where
  "rlines_loop keepends buf [] = [buf]"
| "rlines_loop keepends buf (block # blocks) =
     (let buf1 = block @ buf;
          lines = splitlines keepends buf1
      in if lines \<noteq> [] then
           (let reversed = rev lines
            in butlast reversed @ rlines_loop keepends (last reversed) blocks)
         else rlines_loop keepends buf1 blocks)"

definition rlines :: "pyfile \<Rightarrow> bool \<Rightarrow> error + string list" where
  "rlines f keepends =
     (case rblocks f 4096 of
        Inl e \<Rightarrow> Inl e
      | Inr blocks \<Rightarrow> Inr (rlines_loop keepends [] blocks))"

section \<open>The dump serializer\<close>

definition FILEREAD_CHUNKSIZE :: nat where
  "FILEREAD_CHUNKSIZE = 512"

definition writeContentLength :: "int \<Rightarrow> string" where
  "writeContentLength len = ''Content-length: '' @ str_int len @ ''\<newline>''"

definition writeTextContentLength :: "int \<Rightarrow> string" where
  "writeTextContentLength len = ''Text-content-length: '' @ str_int len @ ''\<newline>''"

text \<open>\<open>str.replace(nodePath, '\\', '/')\<close>.\<close>

definition slashes :: "string \<Rightarrow> string" where
  "slashes p = map (\<lambda>c. if c = CHR 0x5C then CHR ''/'' else c) p"

text \<open>\<open>writeNodePath\<close>: the string it writes, or the exception of \<open>toUTF8\<close>.\<close>

definition writeNodePath :: "config \<Rightarrow> string \<Rightarrow> error + string" where
  "writeNodePath cfg nodePath =
     (case toUTF8 cfg (slashes nodePath) of
        None \<Rightarrow> Inl UnicodeError
      | Some u \<Rightarrow> Inr (''Node-path: '' @ u @ ''\<newline>''))"

definition writeNodeKind :: "string \<Rightarrow> string" where
  "writeNodeKind nodeKind = ''Node-kind: '' @ nodeKind @ ''\<newline>''"

definition writeNodeAction :: "string \<Rightarrow> string" where
  "writeNodeAction nodeAction = ''Node-action: '' @ nodeAction @ ''\<newline>''"

text \<open>
  The loop of \<open>calculateLengthAndChecksum\<close> over the unread rest of the file:
  \<open>file.read(FILEREAD_CHUNKSIZE)\<close> gives the next bytes, fewer at the end and none after
  it.  The state of the \<open>md5\<close> object is the bytes it was fed.
\<close>

function calc_loop :: "string \<Rightarrow> int \<Rightarrow> string \<Rightarrow> int \<times> string" where
  "calc_loop unread textContentLength md =
     (let s = take FILEREAD_CHUNKSIZE unread
      in if s \<noteq> [] then
           calc_loop (drop FILEREAD_CHUNKSIZE unread) (textContentLength + int (length s)) (md @ s)
         else (textContentLength, md))"
  by pat_completeness auto
termination
  by (relation "measure (\<lambda>(unread, n, md). length unread)") (auto simp: FILEREAD_CHUNKSIZE_def)

declare calc_loop.simps [simp del]

definition calculateLengthAndChecksum :: "config \<Rightarrow> string \<Rightarrow> int \<times> string" where
  "calculateLengthAndChecksum cfg filecontent =
     (case calc_loop filecontent 0 [] of
        (textContentLength, md) \<Rightarrow> (textContentLength, md5_hexdigest cfg md))"

text \<open>The module function \<open>writeContent(out, filename)\<close>: the chunks it writes.\<close>

function writeContent_file :: "string \<Rightarrow> string list" where
  "writeContent_file unread =
     (let s = take FILEREAD_CHUNKSIZE unread
      in if s \<noteq> [] then s # writeContent_file (drop FILEREAD_CHUNKSIZE unread) else [])"
  by pat_completeness auto
termination
  by (relation "measure length") (auto simp: FILEREAD_CHUNKSIZE_def)

declare writeContent_file.simps [simp del]

text \<open>
  The dump functions, as what they write to \<open>out\<close>, one list element for each
  \<open>out.write\<close>, and the exception that cut them short, if any.  The content file is given
  by its bytes.
\<close>

definition dumpSvnFile :: "config \<Rightarrow> string \<Rightarrow> string \<Rightarrow> SvnProperties \<Rightarrow> string \<Rightarrow> error option \<times> string list" where
  "dumpSvnFile cfg action path props filecontent =
     (case writeNodePath cfg path of
        Inl e \<Rightarrow> (Some e, [])
      | Inr nodePath \<Rightarrow>
          (case calculateLengthAndChecksum cfg filecontent of
             (textContentLength, checksum) \<Rightarrow>
               (None,
                [nodePath, writeNodeKind ''file'', writeNodeAction action, writeLength props,
                 writeTextContentLength textContentLength,
                 ''Text-content-md5: '' @ checksum @ ''\<newline>'',
                 writeContentLength (textContentLength + totalLen props),
                 ''\<newline>'']
                @ writeContent (dict_order cfg) props
                @ writeContent_file filecontent
                @ [''\<newline>\<newline>''])))"

definition dumpSvnCopy :: "config \<Rightarrow> string \<Rightarrow> string \<Rightarrow> int \<Rightarrow> string \<Rightarrow> error option \<times> string list" where
  "dumpSvnCopy cfg kind copyfromPath copyfromRev target =
     (case writeNodePath cfg target of
        Inl e \<Rightarrow> (Some e, [])
      | Inr nodePath \<Rightarrow>
          (let written = [nodePath, writeNodeKind kind, writeNodeAction ''add'',
                          ''Node-copyfrom-rev: '' @ str_int copyfromRev @ ''\<newline>'']
           in case toUTF8 cfg (slashes copyfromPath) of
                None \<Rightarrow> (Some UnicodeError, written)
              | Some u \<Rightarrow> (None, written @ [''Node-copyfrom-path: '' @ u @ ''\<newline>'', ''\<newline>''])))"

definition dumpSvnDir :: "config \<Rightarrow> string \<Rightarrow> error option \<times> string list" where
  "dumpSvnDir cfg path =
     (case writeNodePath cfg path of
        Inl e \<Rightarrow> (Some e, [])
      | Inr nodePath \<Rightarrow> (None, [nodePath, writeNodeKind ''dir'', writeNodeAction ''add'', ''\<newline>'']))"

definition getSvnBranchPath :: "string \<Rightarrow> string" where
  "getSvnBranchPath branch = ''branches/'' @ branch"

definition getSvnTagPath :: "string \<Rightarrow> string" where
  "getSvnTagPath tag = ''tags/'' @ tag"

section \<open>The branch/tag tree model and the output stream\<close>

text \<open>
  A \<open>FileSet\<close> is a Python set of paths with a \<open>root\<close>.  \<open>Converter.svnTree\<close> holds
  the file sets by branch name and by label, in one dictionary; each \<open>FileSet\<close> object is
  reachable from exactly one key of it, so a reference to the object is its key, and a
  method that changes the object changes the entry under that key.
\<close>

record FileSet =
  root :: string
  paths :: "string set"

definition FileSet_init :: "string \<Rightarrow> FileSet" where
  "FileSet_init r = \<lparr>root = r, paths = {}\<rparr>"

definition getAbsolutePath :: "FileSet \<Rightarrow> string \<Rightarrow> string" where
  "getAbsolutePath fileSet path = root fileSet @ ''/'' @ path"

text \<open>
  What the converter asks the stream to write: one \<open>dump_call\<close> for each call of a dump
  function, with its arguments; the bytes are those of the function of the same name
  above.  \<open>Truncated\<close> marks a call that an exception cut short after its first writes.
\<close>

datatype dump_call =
    FormatVersion
  | RevisionHeader int SvnProperties
  | SvnFile string string SvnProperties string
  | SvnCopy string string int string
  | SvnDir string
  | Truncated dump_call

text \<open>
  \<open>WriteStream\<close>: \<open>dumpfile\<close> (the attribute \<open>file\<close>) is what reached the dump file.  \<open>requests\<close> is every call
  made on the stream, also those dropped while it was disabled; the program does not
  keep it, it is recorded here to speak about what the engine decided.
\<close>

record WriteStream =
  enabled :: bool
  dumpfile :: "dump_call list"
  requests :: "dump_call list"

definition WriteStream_init :: WriteStream where
  "WriteStream_init = \<lparr>enabled = True, dumpfile = [], requests = []\<rparr>"

definition enable :: "WriteStream \<Rightarrow> WriteStream" where
  "enable s = s\<lparr>enabled := True\<rparr>"

definition disable :: "WriteStream \<Rightarrow> WriteStream" where
  "disable s = s\<lparr>enabled := False\<rparr>"

definition disabled :: "WriteStream \<Rightarrow> bool" where
  "disabled s = (enabled s = False)"

definition WriteStream_write :: "dump_call \<Rightarrow> WriteStream \<Rightarrow> WriteStream" where
  "WriteStream_write data s =
     (let s1 = s\<lparr>requests := requests s @ [data]\<rparr>
      in if enabled s1 then s1\<lparr>dumpfile := dumpfile s1 @ [data]\<rparr> else s1)"

section \<open>The converter\<close>

text \<open>
  The state of a \<open>Converter\<close>, with the module global \<open>EmptyProps\<close> (one shared
  \<open>SvnProperties\<close> object) and the dictionary of \<open>SvnAutoProps\<close>.
\<close>

record Converter =
  autoProps :: "(string \<times> SvnProperties) list"
  EmptyProps :: SvnProperties
  labels :: "string list option"
  checklabels :: "string set"
  branches :: "string list option"
  ignoredDirectories :: "string list option"
  out :: WriteStream
  svnTree :: "(string \<times> FileSet) list"
  ccTree :: "(string \<times> string) set"
  svnRevNum :: int
  revProps :: SvnProperties

definition Converter_init ::
  "string list option \<Rightarrow> string list option \<Rightarrow> string list option \<Rightarrow> (string \<times> SvnProperties) list \<Rightarrow> Converter" where
  "Converter_init labels0 branches0 ignoredDirectories0 autoProps0 =
     \<lparr>autoProps = autoProps0,
      EmptyProps = SvnProperties_init,
      labels = labels0,
      checklabels = (case labels0 of Some ls \<Rightarrow> set ls | None \<Rightarrow> {}),
      branches = branches0,
      ignoredDirectories = ignoredDirectories0,
      out = WriteStream_init,
      svnTree = [],
      ccTree = {},
      svnRevNum = 1,
      revProps = SvnProperties_init\<rparr>"

text \<open>One history record, as \<open>CCHistoryParser\<close> builds it; \<open>process\<close> sets the last two fields.\<close>

record CCRecord =
  comment :: string
  date :: "int list"
  path :: string
  revision :: string
  operation :: string
  cclabels :: "string list"
  type :: string
  author :: string
  branchNames :: "string list"
  revNumber :: string
  svnbranch :: string
  svnpath :: string

text \<open>Sequencing: the second step runs on the state the first one left, unless it raised.\<close>

definition andThen ::
  "error option \<times> Converter \<Rightarrow> (Converter \<Rightarrow> error option \<times> Converter) \<Rightarrow> error option \<times> Converter" where
  "andThen r f = (case r of (None, c) \<Rightarrow> f c | (Some e, c) \<Rightarrow> (Some e, c))"

text \<open>
  A dump function called on \<open>self.out\<close>: the call is passed to the stream when it runs
  to its end, passed as \<open>Truncated\<close> when an exception cuts it short after its first
  write, and not at all when the exception comes before (the arguments of
  \<open>out.write\<close> are evaluated whether the stream is enabled or not).
\<close>

definition emit :: "dump_call \<Rightarrow> error option \<times> string list \<Rightarrow> Converter \<Rightarrow> error option \<times> Converter" where
  "emit call res c =
     (case res of
        (None, written) \<Rightarrow> (None, c\<lparr>out := WriteStream_write call (out c)\<rparr>)
      | (Some e, written) \<Rightarrow>
          (Some e, if written = [] then c else c\<lparr>out := WriteStream_write (Truncated call) (out c)\<rparr>))"

definition out_dumpSvnDir :: "config \<Rightarrow> string \<Rightarrow> Converter \<Rightarrow> error option \<times> Converter" where
  "out_dumpSvnDir cfg nodePath c = emit (SvnDir nodePath) (dumpSvnDir cfg nodePath) c"

definition out_dumpSvnCopy :: "config \<Rightarrow> string \<Rightarrow> string \<Rightarrow> int \<Rightarrow> string \<Rightarrow> Converter \<Rightarrow> error option \<times> Converter" where
  "out_dumpSvnCopy cfg kind copyfromPath copyfromRev target c =
     emit (SvnCopy kind copyfromPath copyfromRev target) (dumpSvnCopy cfg kind copyfromPath copyfromRev target) c"

definition out_dumpSvnFile :: "config \<Rightarrow> string \<Rightarrow> string \<Rightarrow> SvnProperties \<Rightarrow> string \<Rightarrow> Converter \<Rightarrow> error option \<times> Converter" where
  "out_dumpSvnFile cfg action nodePath props filecontent c =
     emit (SvnFile action nodePath props filecontent) (dumpSvnFile cfg action nodePath props filecontent) c"

text \<open>
  \<open>dumpRevisionHeader\<close> writes the revision number and the revision properties
  (\<open>revProps.dump\<close>), and counts the revision.  Nothing in it can raise.
\<close>

definition dumpRevisionHeader_writes :: "config \<Rightarrow> int \<Rightarrow> SvnProperties \<Rightarrow> string list" where
  "dumpRevisionHeader_writes cfg n props =
     (''Revision-number: '' @ str_int n @ ''\<newline>'') # dump (dict_order cfg) props"

definition dumpRevisionHeader :: "Converter \<Rightarrow> Converter" where
  "dumpRevisionHeader c =
     (let c1 = c\<lparr>out := WriteStream_write (RevisionHeader (svnRevNum c) (revProps c)) (out c)\<rparr>
      in c1\<lparr>svnRevNum := svnRevNum c1 + 1\<rparr>)"

definition initializeFile :: "config \<Rightarrow> Converter \<Rightarrow> error option \<times> Converter" where
  "initializeFile cfg c =
     (let c1 = c\<lparr>out := WriteStream_write FormatVersion (out c)\<rparr>;
          c2 = (if DUMP_SINCE_DATE cfg \<noteq> None then c1\<lparr>out := disable (out c1)\<rparr> else c1)
      in if SVN_CREATE_BRANCHES_TAGS_DIRS cfg \<noteq> None \<and> SVN_CREATE_BRANCHES_TAGS_DIRS cfg \<noteq> Some [] then
           andThen (out_dumpSvnDir cfg (getSvnBranchPath []) (dumpRevisionHeader c2))
             (out_dumpSvnDir cfg (getSvnTagPath []))
         else (None, c2))"

text \<open>
  \<open>setRevisionProps\<close>.  \<open>setMessage\<close> and \<open>setAuthor\<close> catch the exception of
  \<open>toUTF8\<close> and store the empty string.
\<close>

definition setRevisionProps :: "config \<Rightarrow> CCRecord \<Rightarrow> Converter \<Rightarrow> Converter" where
  "setRevisionProps cfg ccRecord c =
     (let message = (case toUTF8 cfg (comment ccRecord) of Some u \<Rightarrow> u | None \<Rightarrow> []);
          auth = (case toUTF8 cfg (author ccRecord) of Some u \<Rightarrow> u | None \<Rightarrow> []);
          p1 = set_prop ''svn:log'' message (revProps c);
          p2 = set_prop ''svn:author'' auth p1;
          p3 = set_prop ''svn:date'' (strftime cfg (date ccRecord)) p2;
          p4 = set_prop ''ClearcaseRevision'' (revision ccRecord) p3
      in c\<lparr>revProps := p4\<rparr>)"

text \<open>
  \<open>SvnAutoProps.getProps\<close> returns a reference to a shared \<open>SvnProperties\<close> object:
  the one stored under a pattern, or the global \<open>EmptyProps\<close>.
\<close>

datatype props_ref = AutoProp string | EmptyPropsRef

definition getProps :: "config \<Rightarrow> (string \<times> SvnProperties) list \<Rightarrow> string \<Rightarrow> props_ref" where
  "getProps cfg aps filepath =
     (let filename = basename filepath
      in case List.find (\<lambda>kv. fnmatch cfg filename (fst kv)) (iteritems (dict_order cfg) aps) of
           Some kv \<Rightarrow> AutoProp (fst kv)
         | None \<Rightarrow> EmptyPropsRef)"

definition deref :: "Converter \<Rightarrow> props_ref \<Rightarrow> SvnProperties" where
  "deref c r =
     (case r of
        EmptyPropsRef \<Rightarrow> EmptyProps c
      | AutoProp pattern \<Rightarrow> (case map_of (autoProps c) pattern of Some p \<Rightarrow> p | None \<Rightarrow> EmptyProps c))"

definition set_on_ref :: "props_ref \<Rightarrow> string \<Rightarrow> string \<Rightarrow> Converter \<Rightarrow> Converter" where
  "set_on_ref r key val c =
     (case r of
        EmptyPropsRef \<Rightarrow> c\<lparr>EmptyProps := set_prop key val (EmptyProps c)\<rparr>
      | AutoProp pattern \<Rightarrow> c\<lparr>autoProps := AList.map_entry pattern (set_prop key val) (autoProps c)\<rparr>)"

definition dumpFile :: "config \<Rightarrow> CCRecord \<Rightarrow> string \<Rightarrow> bool \<Rightarrow> Converter \<Rightarrow> error option \<times> Converter" where
  "dumpFile cfg ccRecord action symlink c =
     (case getFile cfg (path ccRecord) (revision ccRecord) symlink of
        Inl e \<Rightarrow> (Some e, c)
      | Inr contentFile \<Rightarrow>
          (let props = getProps cfg (autoProps c) (svnpath ccRecord);
               c1 = (if symlink \<and> action = ''add'' then set_on_ref props ''svn:special'' ''*'' c else c)
           in out_dumpSvnFile cfg action (svnpath ccRecord) (deref c1 props) contentFile c1))"

text \<open>\<open>fileSet.add(path)\<close> on the file set under \<open>key\<close>.\<close>

definition fileSet_add :: "string \<Rightarrow> string \<Rightarrow> Converter \<Rightarrow> Converter" where
  "fileSet_add key p c =
     c\<lparr>svnTree := AList.map_entry key (\<lambda>fs. fs\<lparr>paths := insert p (paths fs)\<rparr>) (svnTree c)\<rparr>"

text \<open>
  \<open>createParentDirs\<close> on the file set under \<open>key\<close>.  \<open>dirname\<close> gives a shorter path,
  except for a path made of slashes only, which is its own \<open>dirname\<close>: there the
  recursion of the source never ends and Python raises \<open>RuntimeError\<close> (maximum recursion
  depth exceeded).  The interpreter's limit on the depth of an ending recursion is not
  modelled.
\<close>

function createParentDirs :: "config \<Rightarrow> string \<Rightarrow> string \<Rightarrow> Converter \<Rightarrow> error option \<times> Converter" where
  "createParentDirs cfg key p c =
     (case map_of (svnTree c) key of
        None \<Rightarrow> (Some KeyError, c)
      | Some fileSet \<Rightarrow>
          (let dir = dirname p
           in if dir \<noteq> [] \<and> dir \<notin> paths fileSet then
                (if length dir < length p then
                   andThen (createParentDirs cfg key dir c)
                     (\<lambda>c1. andThen (out_dumpSvnDir cfg (getAbsolutePath fileSet dir) c1)
                        (\<lambda>c2. (None, fileSet_add key dir c2)))
                 else (Some RuntimeError, c))
              else (None, c)))"
  by pat_completeness auto
termination
  by (relation "measure (\<lambda>(cfg, key, p, c). length p)") auto

declare createParentDirs.simps [simp del]

text \<open>\<open>getTagFileset\<close>: the file set is then the one under the key \<open>label\<close>.\<close>

definition getTagFileset :: "config \<Rightarrow> string \<Rightarrow> Converter \<Rightarrow> error option \<times> Converter" where
  "getTagFileset cfg label c =
     (case map_of (svnTree c) label of
        None \<Rightarrow>
          (let fileSet = FileSet_init (getSvnTagPath label);
               c1 = c\<lparr>svnTree := AList.update label fileSet (svnTree c)\<rparr>
           in out_dumpSvnDir cfg (root fileSet) c1)
      | Some fileSet \<Rightarrow> (None, c))"

text \<open>The loop of \<open>processLabels\<close> over \<open>ccRecord.labels\<close>, with its flag \<open>first\<close>.\<close>

fun processLabels_loop ::
  "config \<Rightarrow> CCRecord \<Rightarrow> bool \<Rightarrow> int \<Rightarrow> bool \<Rightarrow> string list \<Rightarrow> Converter \<Rightarrow> error option \<times> Converter" where
  "processLabels_loop cfg ccRecord updateLabels copyfromRev first [] c = (None, c)"
| "processLabels_loop cfg ccRecord updateLabels copyfromRev first (cclabel # rest) c =
     (if (case labels c of None \<Rightarrow> True | Some ls \<Rightarrow> cclabel \<in> set ls) then
        (let c1 = (if first then dumpRevisionHeader c else c)
         in andThen (getTagFileset cfg cclabel c1)
              (\<lambda>c2. andThen (createParentDirs cfg cclabel (path ccRecord) c2)
                 (\<lambda>c3. case map_of (svnTree c3) cclabel of
                          None \<Rightarrow> (Some KeyError, c3)
                        | Some fileSet \<Rightarrow>
                            andThen (out_dumpSvnCopy cfg ''file'' (svnpath ccRecord) copyfromRev
                                       (getAbsolutePath fileSet (path ccRecord)) c3)
                              (\<lambda>c4. processLabels_loop cfg ccRecord updateLabels copyfromRev False rest
                                       (if labels c4 = None \<and> updateLabels
                                        then c4\<lparr>checklabels := insert cclabel (checklabels c4)\<rparr>
                                        else c4)))))
      else processLabels_loop cfg ccRecord updateLabels copyfromRev first rest c)"

definition processLabels :: "config \<Rightarrow> CCRecord \<Rightarrow> bool \<Rightarrow> Converter \<Rightarrow> error option \<times> Converter" where
  "processLabels cfg ccRecord updateLabels c =
     (let c1 = c\<lparr>ccTree := insert (path ccRecord, revision ccRecord) (ccTree c)\<rparr>;
          copyfromRev = svnRevNum c1 - 1
      in processLabels_loop cfg ccRecord updateLabels copyfromRev True (cclabels ccRecord) c1)"

definition isIgnored :: "Converter \<Rightarrow> string \<Rightarrow> bool" where
  "isIgnored c p =
     (case ignoredDirectories c of
        None \<Rightarrow> False
      | Some ds \<Rightarrow> list_ex (\<lambda>directory. startswith p directory) ds)"

section \<open>Converter.process\<close>

text \<open>
  The branch of \<open>process\<close> for a file version whose branch is already in \<open>svnTree\<close>
  (\<open>branchFileSet is not None\<close>).
\<close>

definition process_file_known :: "config \<Rightarrow> CCRecord \<Rightarrow> FileSet \<Rightarrow> Converter \<Rightarrow> error option \<times> Converter" where
  "process_file_known cfg ccRecord branchFileSet c =
     (let c1 = dumpRevisionHeader c
      in andThen
           (if path ccRecord \<in> paths branchFileSet then
              dumpFile cfg ccRecord ''change'' False c1
            else
              andThen (createParentDirs cfg (svnbranch ccRecord) (path ccRecord) c1)
                (\<lambda>c2. andThen (dumpFile cfg ccRecord ''add'' False c2)
                   (\<lambda>c3. (None, fileSet_add (svnbranch ccRecord) (path ccRecord) c3))))
           (processLabels cfg ccRecord True))"

text \<open>
  A new top-level branch: also what the program does for a child branch whose parent is
  missing, once the operator or the configuration lets it go on.
\<close>

definition new_toplevel_branch :: "config \<Rightarrow> CCRecord \<Rightarrow> Converter \<Rightarrow> error option \<times> Converter" where
  "new_toplevel_branch cfg ccRecord c =
     (let newBranchFileSet = FileSet_init (getSvnBranchPath (svnbranch ccRecord));
          c1 = c\<lparr>svnTree := AList.update (svnbranch ccRecord) newBranchFileSet (svnTree c)\<rparr>
      in out_dumpSvnDir cfg (root newBranchFileSet) c1)"

text \<open>
  The branch of \<open>process\<close> for a file version whose branch is new.  \<open>if
  parentBranchFileSet:\<close> tests the truth value of the set: a parent that is known but
  has no path yet counts as missing.
\<close>

definition create_branch :: "config \<Rightarrow> CCRecord \<Rightarrow> int \<Rightarrow> Converter \<Rightarrow> error option \<times> Converter" where
  "create_branch cfg ccRecord copyfromRev c =
     (if length (branchNames ccRecord) < 2 then new_toplevel_branch cfg ccRecord c
      else
        (let parentSvnBranch = last (butlast (branchNames ccRecord));
             parentBranchFileSet = map_of (svnTree c) parentSvnBranch
         in case parentBranchFileSet of
              Some parent \<Rightarrow>
                if paths parent \<noteq> {} then
                  (let copyfromPath = getSvnBranchPath parentSvnBranch;
                       copytoPath = getSvnBranchPath (svnbranch ccRecord);
                       newBranchFileSet = parent\<lparr>root := copytoPath\<rparr>;
                       c1 = c\<lparr>svnTree := AList.update (svnbranch ccRecord) newBranchFileSet (svnTree c)\<rparr>
                   in out_dumpSvnCopy cfg ''dir'' copyfromPath copyfromRev copytoPath c1)
                else if IGNORE_CHILD_BRANCH_WARNING cfg = ''true''
                        \<or> askYesNo cfg ''Create branch anyway and ignore the error? (or exit)''
                then new_toplevel_branch cfg ccRecord c
                else (Some SystemExit, c)
            | None \<Rightarrow>
                if IGNORE_CHILD_BRANCH_WARNING cfg = ''true''
                   \<or> askYesNo cfg ''Create branch anyway and ignore the error? (or exit)''
                then new_toplevel_branch cfg ccRecord c
                else (Some SystemExit, c)))"

definition process_file_new :: "config \<Rightarrow> CCRecord \<Rightarrow> Converter \<Rightarrow> error option \<times> Converter" where
  "process_file_new cfg ccRecord c =
     (let copyfromRev = svnRevNum c - 1;
          c1 = dumpRevisionHeader c
      in andThen (create_branch cfg ccRecord copyfromRev c1)
           (\<lambda>c2. andThen
              (case map_of (svnTree c2) (svnbranch ccRecord) of
                 None \<Rightarrow> (Some KeyError, c2)
               | Some newBranchFileSet \<Rightarrow>
                   if path ccRecord \<in> paths newBranchFileSet then
                     (if revNumber ccRecord \<noteq> ''0'' then dumpFile cfg ccRecord ''change'' False c2
                      else (None, c2))
                   else
                     andThen (createParentDirs cfg (svnbranch ccRecord) (path ccRecord) c2)
                       (\<lambda>c3. andThen (dumpFile cfg ccRecord ''add'' False c3)
                          (\<lambda>c4. (None, fileSet_add (svnbranch ccRecord) (path ccRecord) c4))))
              (processLabels cfg ccRecord True)))"

text \<open>
  The branch for a directory version.  \<open>if branchFileSet:\<close> is again the truth value:
  nothing is done for a branch that is unknown or has no path yet.
\<close>

definition process_directory :: "config \<Rightarrow> CCRecord \<Rightarrow> Converter \<Rightarrow> error option \<times> Converter" where
  "process_directory cfg ccRecord c =
     (case map_of (svnTree c) (svnbranch ccRecord) of
        None \<Rightarrow> (None, c)
      | Some branchFileSet \<Rightarrow>
          if paths branchFileSet \<noteq> {} then
            andThen
              (if path ccRecord \<in> paths branchFileSet then (None, c)
               else
                 andThen (createParentDirs cfg (svnbranch ccRecord) (path ccRecord) (dumpRevisionHeader c))
                   (\<lambda>c1. andThen (out_dumpSvnDir cfg (svnpath ccRecord) c1)
                      (\<lambda>c2. (None, fileSet_add (svnbranch ccRecord) (path ccRecord) c2))))
              (\<lambda>c3. (None, c3\<lparr>ccTree := insert (path ccRecord, revision ccRecord) (ccTree c3)\<rparr>))
          else (None, c))"

text \<open>The branch for a symbolic link.\<close>

definition process_symlink :: "config \<Rightarrow> CCRecord \<Rightarrow> Converter \<Rightarrow> error option \<times> Converter" where
  "process_symlink cfg ccRecord0 c =
     (case PUT_CCLINKS_TO_BRANCH cfg of
        None \<Rightarrow> (Some NameError, c)
      | Some linkBranch \<Rightarrow>
          (let ccRecord = ccRecord0\<lparr>svnbranch := linkBranch,
                                     svnpath := getSvnBranchPath linkBranch @ ''/'' @ path ccRecord0\<rparr>
           in case map_of (svnTree c) (svnbranch ccRecord) of
                Some branchFileSet \<Rightarrow>
                  if path ccRecord \<in> paths branchFileSet then
                    dumpFile cfg ccRecord ''change'' True (dumpRevisionHeader c)
                  else
                    andThen (createParentDirs cfg (svnbranch ccRecord) (path ccRecord) (dumpRevisionHeader c))
                      (\<lambda>c1. andThen (dumpFile cfg ccRecord ''add'' True c1)
                         (\<lambda>c2. (None, fileSet_add (svnbranch ccRecord) (path ccRecord) c2)))
              | None \<Rightarrow> (None, c)))"

text \<open>
  \<open>ccRecord.svnbranch\<close>: the last branch name, or \<open>unknown\<close> when there is none or it
  is the empty string (\<open>len(...) > 0 and ...[-1] or "unknown"\<close>).
\<close>

definition derive_svnbranch :: "CCRecord \<Rightarrow> string" where
  "derive_svnbranch ccRecord =
     (if branchNames ccRecord \<noteq> [] \<and> last (branchNames ccRecord) \<noteq> []
      then last (branchNames ccRecord) else ''unknown'')"

definition process :: "config \<Rightarrow> CCRecord \<Rightarrow> Converter \<Rightarrow> error option \<times> Converter" where
  "process cfg ccRecord0 c =
     (if path ccRecord0 = ''.'' then (None, c)
      else
        (let ccRecord = ccRecord0\<lparr>svnbranch := derive_svnbranch ccRecord0,
                                   svnpath := getSvnBranchPath (derive_svnbranch ccRecord0) @ ''/'' @ path ccRecord0\<rparr>
         in if (case branches c of None \<Rightarrow> False | Some bs \<Rightarrow> svnbranch ccRecord \<notin> set bs) then (None, c)
            else if isIgnored c (path ccRecord) then (None, c)
            else
              (let c1 = (case DUMP_SINCE_DATE cfg of
                           None \<Rightarrow> c
                         | Some since \<Rightarrow>
                             if disabled (out c) \<and> seq_gt (date ccRecord) since
                             then c\<lparr>out := enable (out c)\<rparr> else c);
                   c2 = setRevisionProps cfg ccRecord c1
               in if type ccRecord = ''version'' then
                    (if operation ccRecord = ''checkin'' \<or> operation ccRecord = ''mkbranch''
                        \<or> operation ccRecord = ''mkelem'' then
                       (case map_of (svnTree c2) (svnbranch ccRecord) of
                          Some branchFileSet \<Rightarrow> process_file_known cfg ccRecord branchFileSet c2
                        | None \<Rightarrow> process_file_new cfg ccRecord c2)
                     else (None, c2))
                  else if type ccRecord = ''directory version'' then
                    (if operation ccRecord = ''checkin'' \<or> operation ccRecord = ''mkbranch''
                        \<or> operation ccRecord = ''mkelem'' then process_directory cfg ccRecord c2
                     else (None, c2))
                  else if type ccRecord = ''symbolic link'' \<and> operation ccRecord = ''mkslink'' then
                    process_symlink cfg ccRecord c2
                  else (None, c2))))"

text \<open>The loop of \<open>main\<close> over the parsed records, up to the first exception.\<close>

fun replay :: "config \<Rightarrow> CCRecord list \<Rightarrow> Converter \<Rightarrow> error option \<times> Converter" where
  "replay cfg [] c = (None, c)"
| "replay cfg (ccRecord # rest) c = andThen (process cfg ccRecord c) (replay cfg rest)"

section \<open>Converter.saveState\<close>

text \<open>
  \<open>+\<close> on the two kinds of Python values \<open>saveState\<close> applies it to: a string and an
  integer cannot be added.
\<close>

datatype pyval = PyStr string | PyInt int

fun py_add :: "pyval \<Rightarrow> pyval \<Rightarrow> error + pyval" where
  "py_add (PyStr a) (PyStr b) = Inr (PyStr (a @ b))"
| "py_add (PyInt a) (PyInt b) = Inr (PyInt (a + b))"
| "py_add (PyStr a) (PyInt b) = Inl TypeError"
| "py_add (PyInt a) (PyStr b) = Inl TypeError"

text \<open>
  \<open>saveState\<close>: the strings written to the state file, and the exception, if any.
  \<open>self.svnRevNum\<close> is an integer (\<open>1\<close> at first, then counted up, or \<open>int(rev)\<close> in
  \<open>loadState\<close>).  \<open>elems\<close> lists the pairs of \<open>ccTree\<close> in the order Python iterates the
  set.
\<close>

definition saveState ::
  "config \<Rightarrow> ((string \<times> string) set \<Rightarrow> (string \<times> string) list) \<Rightarrow> Converter \<Rightarrow> error option \<times> string list" where
  "saveState cfg elems c =
     (case py_add (PyStr ''SvnRevNum:'') (PyInt (svnRevNum c)) of
        Inl e \<Rightarrow> (Some e, [])
      | Inr v \<Rightarrow>
          (case py_add v (PyStr ''\<newline>'') of
             Inl e \<Rightarrow> (Some e, [])
           | Inr (PyInt i) \<Rightarrow> (Some TypeError, [])
           | Inr (PyStr line) \<Rightarrow>
               (None,
                [line, ''svnTree:\<newline>'']
                @ map (\<lambda>kv. fst kv @ ''|'' @ root (snd kv) @ ''\<newline>'') (iteritems (dict_order cfg) (svnTree c))
                @ [''ccTree:\<newline>'']
                @ map (\<lambda>pr. fst pr @ ''|'' @ snd pr @ ''\<newline>'') (elems (ccTree c)))))"

section \<open>An example environment\<close>

text \<open>
  A configuration without cutoff date, in which every path transcodes and every file
  version can be fetched (its content here is its own name), and a history record for a
  file version with the fields the engine reads.  They are the inputs of the examples
  below.
\<close>

definition example_config :: config where
  "example_config =
     \<lparr>DUMP_SINCE_DATE = None,
      SVN_CREATE_BRANCHES_TAGS_DIRS = None,
      IGNORE_CHILD_BRANCH_WARNING = ''false'',
      PUT_CCLINKS_TO_BRANCH = None,
      toUTF8 = Some,
      getFile = (\<lambda>p r symlink. Inr (p @ ''@@'' @ r)),
      askYesNo = (\<lambda>question. True),
      md5_hexdigest = (\<lambda>bytes. []),
      fnmatch = (\<lambda>filename pattern. False),
      strftime = (\<lambda>d. []),
      dict_order = (\<lambda>ks. ks)\<rparr>"

definition example_record :: "int \<Rightarrow> string \<Rightarrow> string list \<Rightarrow> string \<Rightarrow> string \<Rightarrow> string list \<Rightarrow> CCRecord" where
  "example_record year p names number opn ls =
     \<lparr>comment = [],
      date = [year, 7, 29, 16, 24, 24, 2, 210, -1],
      path = p,
      revision = concat (map (\<lambda>n. ''/'' @ n) names) @ ''/'' @ number,
      operation = opn,
      cclabels = ls,
      type = ''version'',
      author = ''user1'',
      branchNames = names,
      revNumber = number,
      svnbranch = [],
      svnpath = []\<rparr>"

text \<open>A record with two labels, as \<open>process\<close> hands it to \<open>processLabels\<close>.\<close>

definition labelled_record :: CCRecord where
  "labelled_record = (example_record 2009 ''d/f'' [''main''] ''1'' ''checkin'' [''L1'', ''L2''])\<lparr>svnbranch := ''main'', svnpath := ''branches/main/d/f''\<rparr>"

text \<open>
  The converter after a file \<open>f\<close> on \<open>main\<close> and a file \<open>g\<close> on the child branch
  \<open>dev\<close>, which was created as a copy of \<open>main\<close> and so holds \<open>f\<close> too; and the record
  of version 0 of \<open>f\<close> on \<open>dev\<close> (the element is branched).
\<close>

definition branched_state :: Converter where
  "branched_state = snd (replay example_config
       [example_record 2009 ''f'' [''main''] ''1'' ''checkin'' [],
        example_record 2009 ''g'' [''main'', ''dev''] ''1'' ''checkin'' []]
       (Converter_init None None None []))"

definition version_zero_record :: CCRecord where
  "version_zero_record = example_record 2009 ''f'' [''main'', ''dev''] ''0'' ''mkbranch'' []"

section \<open>Notions used to state the properties\<close>

text \<open>The revision numbers of the revision headers in a sequence of dump calls.\<close>

fun revision_numbers :: "dump_call list \<Rightarrow> int list" where
  "revision_numbers [] = []"
| "revision_numbers (RevisionHeader n props # calls) = n # revision_numbers calls"
| "revision_numbers (call # calls) = revision_numbers calls"

text \<open>The example configuration with a cutoff date (\<open>dump_since_date\<close>) at the start of 2010.\<close>

definition cutoff_config :: config where
  "cutoff_config = example_config\<lparr>DUMP_SINCE_DATE := Some [2010, 1, 1, 0, 0, 0, 4, 1, -1]\<rparr>"

text \<open>
  The two records of \<open>branched_state\<close> replayed with that cutoff date: both are of 2009,
  so the stream stays disabled and the dump file holds the format version only.
\<close>

definition suppressed_state :: Converter where
  "suppressed_state = snd (replay cutoff_config
       [example_record 2009 ''f'' [''main''] ''1'' ''checkin'' [],
        example_record 2009 ''g'' [''main'', ''dev''] ''1'' ''checkin'' []]
       (snd (initializeFile cutoff_config (Converter_init None None None []))))"

text \<open>The copy nodes in a sequence of dump calls.\<close>

fun is_copy :: "dump_call \<Rightarrow> bool" where
  "is_copy (SvnCopy kind copyfromPath copyfromRev target) = True"
| "is_copy call = False"

definition copy_calls :: "dump_call list \<Rightarrow> dump_call list" where
  "copy_calls calls = filter is_copy calls"

text \<open>The labels of a record that pass the list of labels of the converter, in order.\<close>

definition passing_labels :: "Converter \<Rightarrow> CCRecord \<Rightarrow> string list" where
  "passing_labels c ccRecord =
     filter (\<lambda>cclabel. case labels c of None \<Rightarrow> True | Some ls \<Rightarrow> cclabel \<in> set ls) (cclabels ccRecord)"

text \<open>
  The root of the file set that \<open>getTagFileset\<close> gives for a label: the one already
  under that key, or a new one under \<open>tags/\<close>.
\<close>

definition tag_root :: "Converter \<Rightarrow> string \<Rightarrow> string" where
  "tag_root c label = (case map_of (svnTree c) label of Some fileSet \<Rightarrow> root fileSet | None \<Rightarrow> getSvnTagPath label)"

text \<open>What a step asked the stream to write: the requests of the state after it that are not in the state before.\<close>

definition new_requests :: "Converter \<Rightarrow> Converter \<Rightarrow> dump_call list" where
  "new_requests c c' = drop (length (requests (out c))) (requests (out c'))"

text \<open>
  \<open>appended c seg c'\<close>: from \<open>c\<close> to \<open>c'\<close> the stream was asked to write \<open>seg\<close>, which
  reached the dump file if the stream is enabled; it was not switched.
\<close>

definition appended :: "Converter \<Rightarrow> dump_call list \<Rightarrow> Converter \<Rightarrow> bool" where
  "appended c seg c' \<longleftrightarrow>
     requests (out c') = requests (out c) @ seg
     \<and> enabled (out c') = enabled (out c)
     \<and> dumpfile (out c') = dumpfile (out c) @ (if enabled (out c) then seg else [])"

text \<open>
  \<open>dirs_only c c'\<close>: from \<open>c\<close> to \<open>c'\<close> only directory nodes were written (no revision
  header, no copy), and the lists of labels, the revision counter and the roots of the
  file sets are the same.
\<close>

definition dirs_only :: "Converter \<Rightarrow> Converter \<Rightarrow> bool" where
  "dirs_only c c' \<longleftrightarrow>
     (\<exists>seg. appended c seg c' \<and> copy_calls seg = [] \<and> revision_numbers seg = [])
     \<and> labels c' = labels c
     \<and> svnRevNum c' = svnRevNum c
     \<and> (\<forall>k. tag_root c' k = tag_root c k)"

text \<open>
  The effect of the loop of \<open>processLabels\<close> when it ends without exception, for the
  passing labels \<open>ps\<close>: one copy for each of them, and one revision header, written
  first, if the flag \<open>first\<close> was still set and a label passed.
\<close>

definition labels_effect :: "CCRecord \<Rightarrow> int \<Rightarrow> bool \<Rightarrow> string list \<Rightarrow> Converter \<Rightarrow> Converter \<Rightarrow> bool" where
  "labels_effect ccRecord copyfromRev first ps c c' \<longleftrightarrow>
     (\<exists>seg. appended c seg c'
        \<and> copy_calls seg =
            map (\<lambda>l. SvnCopy ''file'' (svnpath ccRecord) copyfromRev (tag_root c l @ ''/'' @ path ccRecord)) ps
        \<and> revision_numbers seg = (if first \<and> ps \<noteq> [] then [svnRevNum c] else [])
        \<and> take 1 seg = (if first \<and> ps \<noteq> [] then [RevisionHeader (svnRevNum c) (revProps c)] else take 1 seg))
     \<and> svnRevNum c' = svnRevNum c + (if first \<and> ps \<noteq> [] then 1 else 0)
     \<and> labels c' = labels c
     \<and> (\<forall>k. tag_root c' k = tag_root c k)"

text \<open>\<open>extends c c'\<close>: from \<open>c\<close> to \<open>c'\<close> the stream was only asked to write more.\<close>

definition extends :: "Converter \<Rightarrow> Converter \<Rightarrow> bool" where
  "extends c c' \<longleftrightarrow> (\<exists>seg. appended c seg c')"

section \<open>SvnAutoProps.load\<close>

text \<open>\<open>s.strip()\<close>: without the white space at both ends.\<close>

definition is_space :: "char \<Rightarrow> bool" where
  "is_space ch = (ch = CHR '' '' \<or> ch = CHR 0x09 \<or> ch = CHR 0x0A \<or> ch = CHR 0x0B \<or> ch = CHR 0x0C \<or> ch = CHR 0x0D)"

definition strip :: "string \<Rightarrow> string" where
  "strip s = rev (dropWhile is_space (rev (dropWhile is_space s)))"

text \<open>
  \<open>s.split(sep)\<close> for a separator that is not empty: the pieces between the occurrences
  of \<open>sep\<close>, found from the left.  The second argument holds the current piece, reversed.
\<close>

function split_from :: "string \<Rightarrow> string \<Rightarrow> string \<Rightarrow> string list" where
  "split_from sep acc [] = [rev acc]"
| "split_from sep acc (ch # rest) =
     (if sep \<noteq> [] \<and> take (length sep) (ch # rest) = sep
      then rev acc # split_from sep [] (drop (length sep) (ch # rest))
      else split_from sep (ch # acc) rest)"
  by pat_completeness auto
termination
  by (relation "measure (\<lambda>(sep, acc, rest). length rest)") auto

definition split :: "string \<Rightarrow> string \<Rightarrow> string list" where
  "split s sep = split_from sep [] s"

text \<open>
  The property set that \<open>load\<close> builds from the right-hand side of a line: one
  \<open>props.set\<close> for each piece between semicolons, the key before the first \<open>=\<close> and
  the value after it (up to the next \<open>=\<close>), or the empty string.
\<close>

definition load_props :: "string \<Rightarrow> SvnProperties" where
  "load_props str =
     foldl (\<lambda>props avp.
              case split avp ''='' of
                key # val # others \<Rightarrow> set_prop key val props
              | [key] \<Rightarrow> set_prop key [] props
              | [] \<Rightarrow> props)
       SvnProperties_init (split str '';'')"

text \<open>
  The loop of \<open>load\<close> over the lines of the file: a line that does not split into
  exactly two pieces at \<open>" = "\<close> is skipped; a pattern that comes again replaces the
  property set stored under it.
\<close>

fun load_lines :: "(string \<times> SvnProperties) list \<Rightarrow> string list \<Rightarrow> (string \<times> SvnProperties) list" where
  "load_lines d [] = d"
| "load_lines d (line # rest) =
     (case split (strip line) '' = '' of
        [pattern, str] \<Rightarrow> load_lines (AList.update pattern (load_props str) d) rest
      | pieces \<Rightarrow> load_lines d rest)"

definition load :: "string list \<Rightarrow> (string \<times> SvnProperties) list" where
  "load file_lines = load_lines [] file_lines"

section \<open>An example of a Python 2 dictionary order\<close>

text \<open>
  \<open>fnmatch.fnmatch\<close> on a POSIX host for patterns without bracket expressions: \<open>*\<close>
  matches any run of characters, \<open>?\<close> one character, any other character itself.
\<close>

fun fnmatch_plain :: "string \<Rightarrow> string \<Rightarrow> bool" where
  "fnmatch_plain name [] = (name = [])"
| "fnmatch_plain [] (p # ps) = (p = CHR ''*'' \<and> fnmatch_plain [] ps)"
| "fnmatch_plain (ch # rest) (p # ps) =
     (if p = CHR ''*'' then fnmatch_plain (ch # rest) ps \<or> fnmatch_plain rest (p # ps)
      else if p = CHR ''?'' then fnmatch_plain rest ps
      else p = ch \<and> fnmatch_plain rest ps)"

text \<open>
  CPython 2 keeps a dictionary of up to five keys in a table of eight slots and iterates
  the slots in order; a key whose slot is free goes to the slot given by the low three
  bits of its hash.  For a string the hash starts from the first character shifted left
  by seven bits, is multiplied by 1000003 and combined by exclusive or with each
  character in turn, and at last with the length.  Only the low three bits are computed
  here: \<open>slot mod 8\<close>.  The order of a dictionary of at most five keys with different
  slots is the order of the slots.
\<close>

definition xor3 :: "nat \<Rightarrow> nat \<Rightarrow> nat" where
  "xor3 a b =
     (if (a mod 2 = 1) \<noteq> (b mod 2 = 1) then 1 else 0)
     + (if (a div 2 mod 2 = 1) \<noteq> (b div 2 mod 2 = 1) then 2 else 0)
     + (if (a div 4 mod 2 = 1) \<noteq> (b div 4 mod 2 = 1) then 4 else 0)"

definition string_hash_slot :: "string \<Rightarrow> nat" where
  "string_hash_slot s =
     (if s = [] then 0
      else xor3 (foldl (\<lambda>x ch. xor3 ((1000003 * x) mod 8) (of_char ch mod 8)) ((of_char (hd s) * 128) mod 8) s)
                (length s mod 8))"

definition small_dict_order :: "string list \<Rightarrow> string list" where
  "small_dict_order ks = sort_key string_hash_slot ks"

definition autoprops_config :: config where
  "autoprops_config = example_config\<lparr>fnmatch := fnmatch_plain, dict_order := small_dict_order\<rparr>"

text \<open>A mapping file of two lines; both patterns match a file named \<open>a.txt\<close>.\<close>

definition autoprops_lines :: "string list" where
  "autoprops_lines = [''*.txt = svn:eol-style=native\<newline>'', ''* = svn:keywords=Id\<newline>'']"

section \<open>Changes and the adds before them\<close>

text \<open>
  \<open>added_rev before p\<close>: the dump calls \<open>before\<close>, the latest first, have added the
  path \<open>p\<close> to the target repository: by a directory node or a file node with the
  action \<open>add\<close> for \<open>p\<close> itself, or by a copy whose target is \<open>p\<close> or a directory above
  \<open>p\<close> and whose source had the matching path added before.  The source of a copy is
  taken as of the calls before the copy: the converter asks for a copy from the revision
  before the one it is writing.
\<close>

fun added_rev :: "dump_call list \<Rightarrow> string \<Rightarrow> bool" where
  "added_rev [] p = False"
| "added_rev (SvnDir q # before) p = (q = p \<or> added_rev before p)"
| "added_rev (SvnFile action q props filecontent # before) p =
     ((action = ''add'' \<and> q = p) \<or> added_rev before p)"
| "added_rev (SvnCopy kind copyfromPath copyfromRev target # before) p =
     ((p = target \<and> added_rev before copyfromPath)
      \<or> (take (length target + 1) p = target @ ''/''
          \<and> added_rev before (copyfromPath @ drop (length target) p))
      \<or> added_rev before p)"
| "added_rev (FormatVersion # before) p = added_rev before p"
| "added_rev (RevisionHeader n props # before) p = added_rev before p"
| "added_rev (Truncated call # before) p = added_rev before p"

definition added :: "dump_call list \<Rightarrow> string \<Rightarrow> bool" where
  "added calls p = added_rev (rev calls) p"

text \<open>
  \<open>call_ok A call\<close>: if \<open>call\<close> is a file node with the action \<open>change\<close>, its path
  satisfies \<open>A\<close>.  \<open>changes_ok before calls\<close>: every file node with the action \<open>change\<close>
  in \<open>calls\<close> has its path added by the calls before it (those of \<open>before\<close>, the latest
  first, and the earlier ones of \<open>calls\<close>).
\<close>

fun call_ok :: "(string \<Rightarrow> bool) \<Rightarrow> dump_call \<Rightarrow> bool" where
  "call_ok A (SvnFile action p props filecontent) = (action = ''change'' \<longrightarrow> A p)"
| "call_ok A FormatVersion = True"
| "call_ok A (RevisionHeader n props) = True"
| "call_ok A (SvnCopy kind copyfromPath copyfromRev target) = True"
| "call_ok A (SvnDir q) = True"
| "call_ok A (Truncated call) = True"

fun changes_ok :: "dump_call list \<Rightarrow> dump_call list \<Rightarrow> bool" where
  "changes_ok before [] = True"
| "changes_ok before (call # calls) =
     (call_ok (added_rev before) call \<and> changes_ok (call # before) calls)"

definition every_change_has_add :: "dump_call list \<Rightarrow> bool" where
  "every_change_has_add calls = changes_ok [] calls"

text \<open>
  The names of the branches of a history: every name in the branch path of a record,
  \<open>unknown\<close> (the branch of a record without branch name) and the branch for symbolic
  links, if there is one.
\<close>

definition branch_names :: "config \<Rightarrow> CCRecord list \<Rightarrow> string set" where
  "branch_names cfg records =
     (\<Union>ccRecord \<in> set records. set (branchNames ccRecord)) \<union> {''unknown''}
     \<union> (case PUT_CCLINKS_TO_BRANCH cfg of None \<Rightarrow> {} | Some linkBranch \<Rightarrow> {linkBranch})"

text \<open>
  The invariant of the replay, for a set \<open>B\<close> of branch names.  \<open>stream_ok\<close>: every
  change the engine asked for has its add before it, and, where \<open>sync\<close> is set, the
  stream is enabled and the dump file holds every request.  \<open>tree_ok\<close>: every path of
  a file set was added under the root of the set, and a file set under a branch name has
  the root of that branch.
\<close>

definition stream_ok :: "bool \<Rightarrow> Converter \<Rightarrow> bool" where
  "stream_ok sync c \<longleftrightarrow>
     every_change_has_add (requests (out c))
     \<and> (sync \<longrightarrow> enabled (out c) \<and> dumpfile (out c) = requests (out c))"

definition tree_ok :: "string set \<Rightarrow> Converter \<Rightarrow> bool" where
  "tree_ok B c \<longleftrightarrow>
     (\<forall>key fileSet. map_of (svnTree c) key = Some fileSet \<longrightarrow>
        (\<forall>p \<in> paths fileSet. added (requests (out c)) (root fileSet @ ''/'' @ p))
        \<and> (key \<in> B \<longrightarrow> root fileSet = getSvnBranchPath key))"

definition replay_inv :: "string set \<Rightarrow> bool \<Rightarrow> Converter \<Rightarrow> bool" where
  "replay_inv B sync c \<longleftrightarrow> stream_ok sync c \<and> tree_ok B c"

definition post :: "string set \<Rightarrow> bool \<Rightarrow> error option \<times> Converter \<Rightarrow> bool" where
  "post B sync r \<longleftrightarrow> (case fst r of None \<Rightarrow> replay_inv B sync (snd r) | Some e \<Rightarrow> stream_ok sync (snd r))"

text \<open>The file nodes in a sequence of dump calls: the action and the path of each.\<close>

fun file_nodes :: "dump_call list \<Rightarrow> (string \<times> string) list" where
  "file_nodes [] = []"
| "file_nodes (SvnFile action p props filecontent # calls) = (action, p) # file_nodes calls"
| "file_nodes (call # calls) = file_nodes calls"

text \<open>
  A history, oldest record first: two versions of \<open>f\<close> on \<open>main\<close>, the first with the
  label \<open>L1\<close>; then \<open>g\<close> on the new branch \<open>dev\<close>, which is created as a copy of \<open>main\<close>;
  then a version of \<open>f\<close> on \<open>dev\<close>.
\<close>

definition example_history :: "CCRecord list" where
  "example_history =
     [example_record 2009 ''f'' [''main''] ''1'' ''checkin'' [''L1''],
      example_record 2009 ''f'' [''main''] ''2'' ''checkin'' [],
      example_record 2009 ''g'' [''main'', ''dev''] ''1'' ''checkin'' [],
      example_record 2009 ''f'' [''main'', ''dev''] ''1'' ''checkin'' []]"

section \<open>Properties of SvnProperties\<close>

lemma length_writeProp: "int (length (concat (writeProp kv))) = calcPropLength (fst kv) (snd kv)"
  by (simp add: writeProp_def calcPropLength_def)

lemma length_concat_writeProps:
  "int (length (concat (concat (map writeProp kvs)))) = block_len kvs"
  by (induction kvs) (simp_all add: block_len_def length_writeProp)

lemma block_len_update_new:
  "map_of kvs key = None \<Longrightarrow> block_len (AList.update key val kvs) = block_len kvs + calcPropLength key val"
  by (induction kvs) (auto simp: block_len_def)

lemma block_len_update_old:
  "distinct (map fst kvs) \<Longrightarrow> map_of kvs key = Some old \<Longrightarrow>
   block_len (AList.update key val kvs) = block_len kvs - calcPropLength key old + calcPropLength key val"
proof (induction kvs)
  case Nil
  then show ?case by simp
next
  case (Cons kv kvs)
  show ?case
  proof (cases "fst kv = key")
    case True
    with Cons.prems have "snd kv = old" by (cases kv) simp
    with True show ?thesis by (cases kv) (simp add: block_len_def)
  next
    case False
    with Cons show ?thesis by (cases kv) (simp add: block_len_def)
  qed
qed

lemma props_ok_init: "props_ok SvnProperties_init"
  by (simp add: props_ok_def SvnProperties_init_def block_len_def)

lemma props_ok_reset: "props_ok (reset p)"
  by (simp add: props_ok_def reset_def block_len_def)

lemma props_ok_set_prop: "props_ok p \<Longrightarrow> props_ok (set_prop key val p)"
  by (cases "map_of (keyset p) key")
     (simp_all add: props_ok_def set_prop_def Let_def distinct_update
        block_len_update_new block_len_update_old)

lemma props_ok_apply: "props_ok p \<Longrightarrow> props_ok (apply_prop_op p x)"
  by (cases x) (simp_all add: props_ok_set_prop props_ok_reset)

lemma props_ok_run: "props_ok p \<Longrightarrow> props_ok (run_prop_ops ops p)"
  unfolding run_prop_ops_def
  by (induction ops arbitrary: p) (simp_all add: props_ok_apply)

lemma map_filter_keys:
  "set xs \<subseteq> fst ` set d \<Longrightarrow>
   List.map_filter (\<lambda>k. map_option (Pair k) (map_of d k)) xs = map (\<lambda>k. (k, the (map_of d k))) xs"
proof (induction xs)
  case Nil
  then show ?case by (simp add: map_filter_simps)
next
  case (Cons x xs)
  then obtain v where "map_of d x = Some v"
    by (cases "map_of d x") (auto simp: map_of_eq_None_iff)
  with Cons show ?case by (simp add: map_filter_simps)
qed

lemma map_the_map_of:
  "distinct (map fst d) \<Longrightarrow> map (\<lambda>k. (k, the (map_of d k))) (map fst d) = d"
proof (induction d)
  case Nil
  then show ?case by simp
next
  case (Cons kv d)
  have "\<And>k. k \<in> set (map fst d) \<Longrightarrow> k \<noteq> fst kv"
    using Cons.prems by force
  then have "map (\<lambda>k. (k, the (map_of (kv # d) k))) (map fst d) = map (\<lambda>k. (k, the (map_of d k))) (map fst d)"
    by (intro map_cong refl) (cases kv, simp)
  with Cons show ?case by (cases kv) simp
qed

lemma mset_iteritems:
  assumes "distinct (map fst d)" and "mset (ord (map fst d)) = mset (map fst d)"
  shows "mset (iteritems ord d) = mset d"
proof -
  let ?f = "\<lambda>k. (k, the (map_of d k))"
  have "set (ord (map fst d)) = set (map fst d)"
    using assms(2) by (rule mset_eq_setD)
  then have "iteritems ord d = map ?f (ord (map fst d))"
    unfolding iteritems_def by (intro map_filter_keys) simp
  then have "mset (iteritems ord d) = image_mset ?f (mset (ord (map fst d)))"
    by (simp only: mset_map)
  also have "\<dots> = image_mset ?f (mset (map fst d))"
    by (simp only: assms(2))
  also have "\<dots> = mset (map ?f (map fst d))"
    by (simp only: mset_map)
  also have "\<dots> = mset d"
    using assms(1) by (simp only: map_the_map_of)
  finally show ?thesis .
qed

lemma block_len_mset:
  assumes "mset xs = mset ys"
  shows "block_len xs = block_len ys"
proof -
  let ?f = "\<lambda>kv. calcPropLength (fst kv) (snd kv)"
  have "mset (map ?f xs) = mset (map ?f ys)"
    using assms by simp
  then have "sum_mset (mset (map ?f xs)) = sum_mset (mset (map ?f ys))"
    by (rule arg_cong)
  then show ?thesis
    unfolding block_len_def by (simp only: sum_mset_sum_list)
qed

lemma length_writeContent:
  assumes "props_ok p" and "mset (ord (map fst (keyset p))) = mset (map fst (keyset p))"
  shows "int (length (concat (writeContent ord p))) = totalLen p"
proof -
  have "block_len (iteritems ord (keyset p)) = block_len (keyset p)"
    using assms by (intro block_len_mset mset_iteritems) (simp_all add: props_ok_def)
  then show ?thesis
    using assms(1) length_concat_writeProps [of "iteritems ord (keyset p)"]
    by (simp add: writeContent_def props_ok_def)
qed

text \<open>
  C3.  Whatever sequence of \<open>set\<close> and \<open>reset\<close> calls a fresh property set has seen (no
  key, one or many, empty values, a key set again), the number written in the
  \<open>Prop-content-length\<close> header is the number of bytes \<open>writeContent\<close> then writes
  for the block, the \<open>PROPS-END\<close> line included, in whatever order the dictionary is
  iterated.
\<close>

theorem prop_content_length_exact:
  assumes "\<And>ks. mset (ord ks) = mset ks"
  shows "writeLength (run_prop_ops ops SvnProperties_init) =
           ''Prop-content-length: ''
           @ str_int (int (length (concat (writeContent ord (run_prop_ops ops SvnProperties_init)))))
           @ ''\<newline>''"
proof -
  have "props_ok (run_prop_ops ops SvnProperties_init)"
    by (rule props_ok_run) (rule props_ok_init)
  then have "int (length (concat (writeContent ord (run_prop_ops ops SvnProperties_init))))
           = totalLen (run_prop_ops ops SvnProperties_init)"
    using assms by (intro length_writeContent) simp_all
  then show ?thesis by (simp add: writeLength_def)
qed

theorem prop_content_length_exact_witness:
  "writeLength (run_prop_ops [Set ''svn:log'' [], Set ''a'' ''b'', Reset, Set ''a'' ''b'', Set ''k'' [], Set ''a'' ''cd''] SvnProperties_init) =
     ''Prop-content-length: ''
     @ str_int (int (length (concat (writeContent rev
          (run_prop_ops [Set ''svn:log'' [], Set ''a'' ''b'', Reset, Set ''a'' ''b'', Set ''k'' [], Set ''a'' ''cd''] SvnProperties_init)))))
     @ ''\<newline>''"
  by (rule prop_content_length_exact) simp

section \<open>Properties of the serializer\<close>

lemma calc_loop_eq: "calc_loop unread n md = (n + int (length unread), md @ unread)"
proof (induction unread n md rule: calc_loop.induct)
  case (1 unread n md)
  show ?case
  proof (cases "take FILEREAD_CHUNKSIZE unread = []")
    case True
    then have "unread = []" by (simp add: FILEREAD_CHUNKSIZE_def)
    then show ?thesis by (simp add: calc_loop.simps [of "[]"])
  next
    case False
    then have ne: "unread \<noteq> []" by auto
    have "calc_loop unread n md =
          calc_loop (drop FILEREAD_CHUNKSIZE unread) (n + int (length (take FILEREAD_CHUNKSIZE unread)))
            (md @ take FILEREAD_CHUNKSIZE unread)"
      using False by (subst calc_loop.simps) (simp add: Let_def)
    also have "\<dots> = (n + int (length (take FILEREAD_CHUNKSIZE unread)) + int (length (drop FILEREAD_CHUNKSIZE unread)),
                     (md @ take FILEREAD_CHUNKSIZE unread) @ drop FILEREAD_CHUNKSIZE unread)"
      by (rule "1.IH" [OF refl False])
    also have "\<dots> = (n + int (length unread), md @ unread)"
      by simp
    finally show ?thesis .
  qed
qed

lemma concat_writeContent_file: "concat (writeContent_file unread) = unread"
proof (induction unread rule: writeContent_file.induct)
  case (1 unread)
  show ?case
  proof (cases "take FILEREAD_CHUNKSIZE unread = []")
    case True
    then have "unread = []" by (simp add: FILEREAD_CHUNKSIZE_def)
    then show ?thesis by (simp add: writeContent_file.simps [of "[]"])
  next
    case False
    have "writeContent_file unread = take FILEREAD_CHUNKSIZE unread # writeContent_file (drop FILEREAD_CHUNKSIZE unread)"
      using False by (subst writeContent_file.simps) (simp add: Let_def)
    moreover have "concat (writeContent_file (drop FILEREAD_CHUNKSIZE unread)) = drop FILEREAD_CHUNKSIZE unread"
      by (rule "1.IH" [OF refl False])
    ultimately show ?thesis by simp
  qed
qed

lemma calculateLengthAndChecksum_eq:
  "calculateLengthAndChecksum cfg filecontent = (int (length filecontent), md5_hexdigest cfg filecontent)"
  by (simp add: calculateLengthAndChecksum_def calc_loop_eq)

text \<open>
  C4.  For a file node, whatever the size of the content (nothing, less than one read
  buffer of 512 bytes, or several buffers), the \<open>Text-content-length\<close> header carries the
  number of bytes of the content, as counted chunk by chunk, and the \<open>Content-length\<close>
  header carries that number plus the length of the property block (the number written
  in \<open>Prop-content-length\<close>); the chunks written after the property block are the
  content, byte for byte.
\<close>

theorem dumpSvnFile_content_length:
  assumes "writeNodePath cfg p = Inr nodePath"
  shows "dumpSvnFile cfg action p props filecontent =
           (None,
            [nodePath, ''Node-kind: file\<newline>'', ''Node-action: '' @ action @ ''\<newline>'',
             writeLength props,
             ''Text-content-length: '' @ str_int (int (length filecontent)) @ ''\<newline>'',
             ''Text-content-md5: '' @ md5_hexdigest cfg filecontent @ ''\<newline>'',
             ''Content-length: '' @ str_int (int (length filecontent) + totalLen props) @ ''\<newline>'',
             ''\<newline>'']
            @ writeContent (dict_order cfg) props
            @ writeContent_file filecontent
            @ [''\<newline>\<newline>''])
         \<and> concat (writeContent_file filecontent) = filecontent"
  using assms
  by (simp add: dumpSvnFile_def calculateLengthAndChecksum_eq concat_writeContent_file
        writeNodeKind_def writeNodeAction_def writeTextContentLength_def writeContentLength_def)

theorem dumpSvnFile_content_length_witness:
  "writeNodePath example_config ''branches/main/f'' = Inr ''Node-path: branches/main/f\<newline>''
   \<and> dumpSvnFile example_config ''add'' ''branches/main/f'' (set_prop ''k'' ''v'' SvnProperties_init)
         (replicate 1300 (CHR ''x'')) =
        (None,
         [''Node-path: branches/main/f\<newline>'', ''Node-kind: file\<newline>'', ''Node-action: '' @ ''add'' @ ''\<newline>'',
          writeLength (set_prop ''k'' ''v'' SvnProperties_init),
          ''Text-content-length: '' @ str_int (int (length (replicate 1300 (CHR ''x'')))) @ ''\<newline>'',
          ''Text-content-md5: '' @ md5_hexdigest example_config (replicate 1300 (CHR ''x'')) @ ''\<newline>'',
          ''Content-length: '' @ str_int (int (length (replicate 1300 (CHR ''x'')))
              + totalLen (set_prop ''k'' ''v'' SvnProperties_init)) @ ''\<newline>'',
          ''\<newline>'']
         @ writeContent (dict_order example_config) (set_prop ''k'' ''v'' SvnProperties_init)
         @ writeContent_file (replicate 1300 (CHR ''x''))
         @ [''\<newline>\<newline>''])
   \<and> concat (writeContent_file (replicate 1300 (CHR ''x''))) = replicate 1300 (CHR ''x'')"
proof -
  have h: "writeNodePath example_config ''branches/main/f'' = Inr ''Node-path: branches/main/f\<newline>''"
    by (simp add: writeNodePath_def example_config_def slashes_def)
  show ?thesis
    using h dumpSvnFile_content_length [OF h, of "''add''" "set_prop ''k'' ''v'' SvnProperties_init"
        "replicate 1300 (CHR ''x'')"]
    by simp
qed

section \<open>Properties of the reverse line reader\<close>

lemma splitlines_from_replicate:
  "c \<noteq> CHR 0x0A \<Longrightarrow> c \<noteq> CHR 0x0D \<Longrightarrow>
   splitlines_from keepends acc (replicate n c @ rest) = splitlines_from keepends (replicate n c @ acc) rest"
proof (induction n arbitrary: acc)
  case 0
  then show ?case by simp
next
  case (Suc n)
  then show ?case by (simp add: replicate_app_Cons_same)
qed

text \<open>
  C5.  The reverse reader does not always yield the lines of forward splitting in
  reversed order.  A file of 4098 bytes, 4095 letters and then an empty line before the
  last line, has its second line end at the boundary of the 4096-byte block: the lines
  are the letters, the empty line and \<open>b\<close>, but \<open>rlines\<close> yields \<open>b\<close> and the
  letters only.  The empty line is lost, because the buffer kept between two blocks has
  lost its line end (\<open>keepends\<close> is false).
\<close>

theorem rlines_loses_empty_line:
  "rlines \<lparr>mode = ''rb'', content = replicate 4095 (CHR ''a'') @ ''\<newline>\<newline>b''\<rparr> False
     = Inr [''b'', replicate 4095 (CHR ''a'')]
   \<and> rev (splitlines False (replicate 4095 (CHR ''a'') @ ''\<newline>\<newline>b''))
     = [''b'', [], replicate 4095 (CHR ''a'')]"
  by (simp add: rlines_def rblocks_def Let_def splitlines_def splitlines_from_replicate)

section \<open>Properties of the converter\<close>

text \<open>
  C7.  A record whose path is the root of the repository (\<open>.\<close>), whose branch is not in
  the configured list of branches, or whose path starts with a configured ignored
  directory is dropped: \<open>process\<close> returns without an exception and leaves the whole
  converter as it was (the tree, the visited set, the revision counter, the revision
  properties and the stream with everything written so far).
\<close>

theorem process_filtered:
  assumes "path ccRecord = ''.''
         \<or> (\<exists>bs. branches c = Some bs \<and> derive_svnbranch ccRecord \<notin> set bs)
         \<or> isIgnored c (path ccRecord)"
  shows "process cfg ccRecord c = (None, c)"
proof -
  consider (root) "path ccRecord = ''.''"
    | (branch) bs where "branches c = Some bs" "derive_svnbranch ccRecord \<notin> set bs"
    | (ignored) "isIgnored c (path ccRecord)"
    using assms by blast
  then show ?thesis
  proof cases
    case root
    then show ?thesis by (simp add: process_def)
  next
    case branch
    then show ?thesis by (simp add: process_def Let_def)
  next
    case ignored
    then show ?thesis by (simp add: process_def Let_def)
  qed
qed

theorem process_filtered_witness:
  "process example_config (example_record 2009 ''.'' [''main''] ''1'' ''checkin'' [''L''])
       (Converter_init None None None [])
     = (None, Converter_init None None None [])
   \<and> process example_config (example_record 2009 ''f'' [''main'', ''dev''] ''1'' ''checkin'' [''L''])
       (Converter_init None (Some [''main'']) None [])
     = (None, Converter_init None (Some [''main'']) None [])
   \<and> process example_config (example_record 2009 ''tmp/f'' [''main''] ''1'' ''checkin'' [''L''])
       (Converter_init None None (Some [''tmp'']) [])
     = (None, Converter_init None None (Some [''tmp'']) [])"
proof -
  have a: "path (example_record 2009 ''.'' [''main''] ''1'' ''checkin'' [''L'']) = ''.''"
    by (simp add: example_record_def)
  have b: "\<exists>bs. branches (Converter_init None (Some [''main'']) None []) = Some bs
             \<and> derive_svnbranch (example_record 2009 ''f'' [''main'', ''dev''] ''1'' ''checkin'' [''L'']) \<notin> set bs"
    by (simp add: Converter_init_def example_record_def derive_svnbranch_def)
  have c: "isIgnored (Converter_init None None (Some [''tmp'']) [])
             (path (example_record 2009 ''tmp/f'' [''main''] ''1'' ''checkin'' [''L'']))"
    by (simp add: Converter_init_def example_record_def isIgnored_def startswith_def)
  show ?thesis
    using process_filtered [of "example_record 2009 ''.'' [''main''] ''1'' ''checkin'' [''L'']"
                               "Converter_init None None None []" example_config]
          process_filtered [of "example_record 2009 ''f'' [''main'', ''dev''] ''1'' ''checkin'' [''L'']"
                               "Converter_init None (Some [''main'']) None []" example_config]
          process_filtered [of "example_record 2009 ''tmp/f'' [''main''] ''1'' ''checkin'' [''L'']"
                               "Converter_init None None (Some [''tmp'']) []" example_config]
          a b c
    by blast
qed

text \<open>
  C8.  \<open>saveState\<close>, which \<open>main\<close> calls when the replay fails, never writes the run
  state: its first statement adds the integer \<open>svnRevNum\<close> to a string, which raises
  \<open>TypeError\<close> for every state of the converter, before anything is written to the state
  file.
\<close>

theorem saveState_raises: "saveState cfg elems c = (Some TypeError, [])"
  by (simp add: saveState_def)

theorem saveState_raises_witness:
  "saveState example_config (\<lambda>s. []) (Converter_init None None None []) = (Some TypeError, [])"
  by (rule saveState_raises)

lemma dumpRevisionHeader_svnRevNum: "svnRevNum (dumpRevisionHeader c) = svnRevNum c + 1"
  by (simp add: dumpRevisionHeader_def Let_def)

text \<open>
  C10.  Every call of \<open>dumpRevisionHeader\<close> adds one to the revision counter, also when
  the stream is disabled and nothing reaches the dump file.  So with a cutoff date the
  first revision header in the file can carry a number above 1: here the record of 2009
  uses revision 1, which is suppressed, and the file starts with the revisions 2 and 3.
\<close>

theorem revision_counter_counts_suppressed:
  "svnRevNum (dumpRevisionHeader c) = svnRevNum c + 1
   \<and> svnRevNum (dumpRevisionHeader (c\<lparr>out := disable (out c)\<rparr>)) = svnRevNum c + 1
   \<and> dumpfile (out (dumpRevisionHeader (c\<lparr>out := disable (out c)\<rparr>))) = dumpfile (out c)
   \<and> revision_numbers (dumpfile (out (snd (replay cutoff_config
         [example_record 2009 ''f'' [''main''] ''1'' ''checkin'' [],
          example_record 2011 ''f'' [''main''] ''2'' ''checkin'' [],
          example_record 2011 ''g'' [''main''] ''1'' ''checkin'' []]
         (snd (initializeFile cutoff_config (Converter_init None None None []))))))) = [2, 3]"
proof -
  have "revision_numbers (dumpfile (out (snd (replay cutoff_config
         [example_record 2009 ''f'' [''main''] ''1'' ''checkin'' [],
          example_record 2011 ''f'' [''main''] ''2'' ''checkin'' [],
          example_record 2011 ''g'' [''main''] ''1'' ''checkin'' []]
         (snd (initializeFile cutoff_config (Converter_init None None None []))))))) = [2, 3]"
    by code_simp
  then show ?thesis
    by (simp add: dumpRevisionHeader_def Let_def WriteStream_write_def disable_def)
qed

theorem revision_counter_counts_suppressed_witness:
  "svnRevNum (dumpRevisionHeader (Converter_init None None None [])) = 2"
  using revision_counter_counts_suppressed [of "Converter_init None None None []"]
  by (simp add: Converter_init_def)

section \<open>What the steps of the converter write\<close>

lemma appended_refl: "appended c [] c"
  by (simp add: appended_def)

lemma appended_trans: "appended c s1 c1 \<Longrightarrow> appended c1 s2 c2 \<Longrightarrow> appended c (s1 @ s2) c2"
  by (simp add: appended_def)

lemma appended_write: "appended c [x] (c\<lparr>out := WriteStream_write x (out c)\<rparr>)"
  by (simp add: appended_def WriteStream_write_def Let_def)

lemma emit_cases:
  "snd (emit call res c) = c \<and> fst (emit call res c) \<noteq> None
   \<or> snd (emit call res c) = c\<lparr>out := WriteStream_write (Truncated call) (out c)\<rparr> \<and> fst (emit call res c) \<noteq> None
   \<or> snd (emit call res c) = c\<lparr>out := WriteStream_write call (out c)\<rparr> \<and> fst (emit call res c) = None"
proof (cases res)
  case (Pair e written)
  then show ?thesis by (cases e) (simp_all add: emit_def)
qed

lemma tag_root_out [simp]: "tag_root (c\<lparr>out := s\<rparr>) k = tag_root c k"
  by (simp add: tag_root_def)

lemma copy_calls_append [simp]: "copy_calls (xs @ ys) = copy_calls xs @ copy_calls ys"
  by (simp add: copy_calls_def)

lemma revision_numbers_append [simp]: "revision_numbers (xs @ ys) = revision_numbers xs @ revision_numbers ys"
  by (induction xs rule: revision_numbers.induct) simp_all

lemma dirs_onlyI:
  assumes "appended c seg c'" "copy_calls seg = []" "revision_numbers seg = []"
    "labels c' = labels c" "svnRevNum c' = svnRevNum c" "\<And>k. tag_root c' k = tag_root c k"
  shows "dirs_only c c'"
  unfolding dirs_only_def using assms by blast

lemma dirs_only_refl: "dirs_only c c"
  by (rule dirs_onlyI [of c "[]"]) (simp_all add: appended_refl copy_calls_def)

lemma dirs_only_trans:
  assumes "dirs_only c c1" "dirs_only c1 c2"
  shows "dirs_only c c2"
proof -
  from assms(1) obtain s1 where s1: "appended c s1 c1" "copy_calls s1 = []" "revision_numbers s1 = []"
    and f1: "labels c1 = labels c" "svnRevNum c1 = svnRevNum c" "\<And>k. tag_root c1 k = tag_root c k"
    unfolding dirs_only_def by blast
  from assms(2) obtain s2 where s2: "appended c1 s2 c2" "copy_calls s2 = []" "revision_numbers s2 = []"
    and f2: "labels c2 = labels c1" "svnRevNum c2 = svnRevNum c1" "\<And>k. tag_root c2 k = tag_root c1 k"
    unfolding dirs_only_def by blast
  show ?thesis
  proof (rule dirs_onlyI [of c "s1 @ s2"])
    show "appended c (s1 @ s2) c2" using s1(1) s2(1) by (rule appended_trans)
  qed (simp_all add: s1 s2 f1 f2)
qed

lemma dirs_only_write_dir: "dirs_only c (c\<lparr>out := WriteStream_write (SvnDir p) (out c)\<rparr>)"
  by (rule dirs_onlyI [of c "[SvnDir p]"]) (simp_all add: appended_write copy_calls_def)

lemma dirs_only_write_truncated: "dirs_only c (c\<lparr>out := WriteStream_write (Truncated x) (out c)\<rparr>)"
  by (rule dirs_onlyI [of c "[Truncated x]"]) (simp_all add: appended_write copy_calls_def)

lemma out_dumpSvnDir_dirs_only: "dirs_only c (snd (out_dumpSvnDir cfg p c))"
  using emit_cases [of "SvnDir p" "dumpSvnDir cfg p" c]
  unfolding out_dumpSvnDir_def
  by (auto simp: dirs_only_refl dirs_only_write_dir dirs_only_write_truncated)

lemma andThen_fst_None:
  "fst (andThen r f) = None \<Longrightarrow> fst r = None \<and> fst (f (snd r)) = None \<and> andThen r f = f (snd r)"
  by (cases r; cases "fst r") (auto simp: andThen_def)

lemma andThen_snd_cases:
  "snd (andThen r f) = snd r \<and> fst r \<noteq> None \<or> snd (andThen r f) = snd (f (snd r)) \<and> fst r = None"
  by (cases r; cases "fst r") (auto simp: andThen_def)

lemma andThen_dirs_only:
  assumes "dirs_only c (snd r)" and "\<And>c1. dirs_only c1 (snd (f c1))"
  shows "dirs_only c (snd (andThen r f))"
  using andThen_snd_cases [of r f] assms(1) dirs_only_trans [OF assms(1) assms(2) [of "snd r"]]
  by auto

lemma tag_root_fileSet_add [simp]: "tag_root (fileSet_add key p c) k = tag_root c k"
  by (simp add: tag_root_def fileSet_add_def map_of_map_entry split: option.splits)

lemma dirs_only_fileSet_add: "dirs_only c (fileSet_add key p c)"
  by (rule dirs_onlyI [of c "[]"]) (simp_all add: appended_def fileSet_add_def copy_calls_def tag_root_def map_of_map_entry split: option.splits)

lemma createParentDirs_dirs_only: "dirs_only c (snd (createParentDirs cfg key p c))"
proof (induction cfg key p c rule: createParentDirs.induct)
  case (1 cfg key p c)
  show ?case
  proof (cases "map_of (svnTree c) key")
    case None
    then show ?thesis by (subst createParentDirs.simps) (simp add: dirs_only_refl)
  next
    case (Some fileSet)
    show ?thesis
    proof (cases "dirname p \<noteq> [] \<and> dirname p \<notin> paths fileSet")
      case False
      with Some show ?thesis by (subst createParentDirs.simps) (auto simp: dirs_only_refl Let_def)
    next
      case True
      show ?thesis
      proof (cases "length (dirname p) < length p")
        case False
        with True Some show ?thesis by (subst createParentDirs.simps) (auto simp: dirs_only_refl Let_def)
      next
        case shorter: True
        have rec: "dirs_only c (snd (createParentDirs cfg key (dirname p) c))"
          using "1.IH" [OF Some refl True shorter] .
        have eq: "createParentDirs cfg key p c =
            andThen (createParentDirs cfg key (dirname p) c)
              (\<lambda>c1. andThen (out_dumpSvnDir cfg (getAbsolutePath fileSet (dirname p)) c1)
                 (\<lambda>c2. (None, fileSet_add key (dirname p) c2)))"
          using Some True shorter by (subst createParentDirs.simps) (simp add: Let_def)
        show ?thesis
          unfolding eq
          by (intro andThen_dirs_only rec out_dumpSvnDir_dirs_only) (simp add: dirs_only_fileSet_add)
      qed
    qed
  qed
qed

lemma getTagFileset_dirs_only: "dirs_only c (snd (getTagFileset cfg label c))"
proof (cases "map_of (svnTree c) label")
  case None
  have "dirs_only c (c\<lparr>svnTree := AList.update label (FileSet_init (getSvnTagPath label)) (svnTree c)\<rparr>)"
    using None
    by (intro dirs_onlyI [of c "[]"])
       (simp_all add: appended_def copy_calls_def tag_root_def update_conv' FileSet_init_def)
  then show ?thesis
    using None out_dumpSvnDir_dirs_only dirs_only_trans
    by (simp add: getTagFileset_def Let_def)
next
  case (Some fs)
  then show ?thesis by (simp add: getTagFileset_def dirs_only_refl)
qed

lemma labels_effect_nil: "labels_effect r rv first [] c c"
  unfolding labels_effect_def using appended_refl [of c] by (auto simp: copy_calls_def intro!: exI [of _ "[]"])

lemma tag_root_dumpRevisionHeader [simp]: "tag_root (dumpRevisionHeader c) k = tag_root c k"
  by (simp add: tag_root_def dumpRevisionHeader_def Let_def)

lemma appended_dumpRevisionHeader:
  "appended c [RevisionHeader (svnRevNum c) (revProps c)] (dumpRevisionHeader c)"
  by (simp add: appended_def dumpRevisionHeader_def Let_def WriteStream_write_def)

lemma out_dumpSvnCopy_success:
  "fst (out_dumpSvnCopy cfg kind src rv tgt c) = None \<Longrightarrow>
   snd (out_dumpSvnCopy cfg kind src rv tgt c) = c\<lparr>out := WriteStream_write (SvnCopy kind src rv tgt) (out c)\<rparr>"
  using emit_cases [of "SvnCopy kind src rv tgt" "dumpSvnCopy cfg kind src rv tgt" c]
  by (auto simp: out_dumpSvnCopy_def)

lemma processLabels_loop_effect:
  assumes "fst (processLabels_loop cfg r u rv first ls c) = None"
  shows "labels_effect r rv first
           (filter (\<lambda>l. case labels c of None \<Rightarrow> True | Some allowed \<Rightarrow> l \<in> set allowed) ls)
           c (snd (processLabels_loop cfg r u rv first ls c))"
  using assms
proof (induction ls arbitrary: first c)
  case Nil
  then show ?case by (simp add: labels_effect_nil)
next
  case (Cons l rest)
  let ?pass = "\<lambda>c l. case labels c of None \<Rightarrow> True | Some allowed \<Rightarrow> l \<in> set allowed"
  show ?case
  proof (cases "?pass c l")
    case False
    with Cons show ?thesis by simp
  next
    case True
    define c1 where "c1 = (if first then dumpRevisionHeader c else c)"
    define c2 where "c2 = snd (getTagFileset cfg l c1)"
    define c3 where "c3 = snd (createParentDirs cfg l (path r) c2)"
    define k where "k = (\<lambda>c3. case map_of (svnTree c3) l of
                          None \<Rightarrow> (Some KeyError, c3)
                        | Some fileSet \<Rightarrow>
                            andThen (out_dumpSvnCopy cfg ''file'' (svnpath r) rv
                                       (getAbsolutePath fileSet (path r)) c3)
                              (\<lambda>c4. processLabels_loop cfg r u rv False rest
                                       (if labels c4 = None \<and> u
                                        then c4\<lparr>checklabels := insert l (checklabels c4)\<rparr>
                                        else c4)))"
    have unfold: "processLabels_loop cfg r u rv first (l # rest) c =
        andThen (getTagFileset cfg l c1) (\<lambda>c2. andThen (createParentDirs cfg l (path r) c2) k)"
      using True by (simp add: c1_def k_def Let_def)
    from Cons.prems have ok: "fst (andThen (getTagFileset cfg l c1) (\<lambda>c2. andThen (createParentDirs cfg l (path r) c2) k)) = None"
      by (simp only: unfold)
    have ok2: "fst (andThen (createParentDirs cfg l (path r) c2) k) = None"
      and eq1: "processLabels_loop cfg r u rv first (l # rest) c = andThen (createParentDirs cfg l (path r) c2) k"
      using andThen_fst_None [OF ok] by (simp_all only: unfold c2_def)
    have ok3: "fst (k c3) = None" and eq2: "processLabels_loop cfg r u rv first (l # rest) c = k c3"
      using andThen_fst_None [OF ok2] by (simp_all only: eq1 c3_def)
    from ok3 obtain fileSet where fs: "map_of (svnTree c3) l = Some fileSet"
      by (cases "map_of (svnTree c3) l") (auto simp: k_def)
    define c4 where "c4 = c3\<lparr>out := WriteStream_write (SvnCopy ''file'' (svnpath r) rv (getAbsolutePath fileSet (path r))) (out c3)\<rparr>"
    define c5 where "c5 = (if labels c4 = None \<and> u then c4\<lparr>checklabels := insert l (checklabels c4)\<rparr> else c4)"
    have k3: "k c3 = andThen (out_dumpSvnCopy cfg ''file'' (svnpath r) rv (getAbsolutePath fileSet (path r)) c3)
                 (\<lambda>c4. processLabels_loop cfg r u rv False rest
                          (if labels c4 = None \<and> u then c4\<lparr>checklabels := insert l (checklabels c4)\<rparr> else c4))"
      using fs by (simp add: k_def)
    let ?cp = "out_dumpSvnCopy cfg ''file'' (svnpath r) rv (getAbsolutePath fileSet (path r)) c3"
    have okc: "fst ?cp = None"
      and ok5': "fst (processLabels_loop cfg r u rv False rest
             (if labels (snd ?cp) = None \<and> u
              then (snd ?cp)\<lparr>checklabels := insert l (checklabels (snd ?cp))\<rparr>
              else snd ?cp)) = None"
      and eq3': "k c3 = processLabels_loop cfg r u rv False rest
             (if labels (snd ?cp) = None \<and> u
              then (snd ?cp)\<lparr>checklabels := insert l (checklabels (snd ?cp))\<rparr>
              else snd ?cp)"
      using andThen_fst_None [OF ok3 [unfolded k3]] by (simp_all only: k3)
    have snd4: "snd (out_dumpSvnCopy cfg ''file'' (svnpath r) rv (getAbsolutePath fileSet (path r)) c3) = c4"
      unfolding c4_def by (rule out_dumpSvnCopy_success [OF okc])
    have ok5: "fst (processLabels_loop cfg r u rv False rest c5) = None"
      using ok5' by (simp only: snd4 c5_def)
    have eq3: "processLabels_loop cfg r u rv first (l # rest) c = processLabels_loop cfg r u rv False rest c5"
      using eq3' by (simp only: eq2 snd4 c5_def)
    have IH: "labels_effect r rv False (filter (?pass c5) rest) c5 (snd (processLabels_loop cfg r u rv False rest c5))"
      by (rule Cons.IH [OF ok5])
    \<comment> \<open>the steps, one by one\<close>
    have d13: "dirs_only c1 c3"
      unfolding c3_def c2_def
      by (rule dirs_only_trans [OF getTagFileset_dirs_only createParentDirs_dirs_only])
    then obtain segd where segd: "appended c1 segd c3" "copy_calls segd = []" "revision_numbers segd = []"
      and f13: "labels c3 = labels c1" "svnRevNum c3 = svnRevNum c1" "\<And>k. tag_root c3 k = tag_root c1 k"
      unfolding dirs_only_def by blast
    have f01: "labels c1 = labels c" "\<And>k. tag_root c1 k = tag_root c k"
      "svnRevNum c1 = svnRevNum c + (if first then 1 else 0)"
      by (simp_all add: c1_def dumpRevisionHeader_def Let_def tag_root_def)
    have a01: "appended c (if first then [RevisionHeader (svnRevNum c) (revProps c)] else []) c1"
      by (simp add: c1_def appended_dumpRevisionHeader appended_refl)
    have a34: "appended c3 [SvnCopy ''file'' (svnpath r) rv (getAbsolutePath fileSet (path r))] c4"
      unfolding c4_def by (rule appended_write)
    have a45: "appended c4 [] c5"
      by (simp add: c5_def appended_def)
    have f35: "labels c5 = labels c3" "svnRevNum c5 = svnRevNum c3" "\<And>k. tag_root c5 k = tag_root c3 k"
      by (simp_all add: c5_def c4_def tag_root_def)
    have rootl: "getAbsolutePath fileSet (path r) = tag_root c l @ ''/'' @ path r"
      using fs f13(3) [of l] f01(2) [of l] by (simp add: getAbsolutePath_def tag_root_def)
    have lab5: "labels c5 = labels c" using f35(1) f13(1) f01(1) by simp
    have tr5: "\<And>k. tag_root c5 k = tag_root c k" using f35(3) f13(3) f01(2) by simp
    have rev5: "svnRevNum c5 = svnRevNum c + (if first then 1 else 0)" using f35(2) f13(2) f01(3) by simp
    from IH obtain seg' where seg': "appended c5 seg' (snd (processLabels_loop cfg r u rv False rest c5))"
        "copy_calls seg' = map (\<lambda>l. SvnCopy ''file'' (svnpath r) rv (tag_root c5 l @ ''/'' @ path r)) (filter (?pass c5) rest)"
        "revision_numbers seg' = []"
      and f5: "svnRevNum (snd (processLabels_loop cfg r u rv False rest c5)) = svnRevNum c5"
        "labels (snd (processLabels_loop cfg r u rv False rest c5)) = labels c5"
        "\<And>k. tag_root (snd (processLabels_loop cfg r u rv False rest c5)) k = tag_root c5 k"
      unfolding labels_effect_def by auto
    let ?seg = "(if first then [RevisionHeader (svnRevNum c) (revProps c)] else []) @ segd
                @ [SvnCopy ''file'' (svnpath r) rv (getAbsolutePath fileSet (path r))] @ [] @ seg'"
    have app: "appended c ?seg (snd (processLabels_loop cfg r u rv False rest c5))"
      by (intro appended_trans [OF a01] appended_trans [OF segd(1)] appended_trans [OF a34]
            appended_trans [OF a45] seg'(1))
    have pass5: "?pass c5 = ?pass c" using lab5 by simp
    have k0: "copy_calls (if first then [RevisionHeader (svnRevNum c) (revProps c)] else []) = []"
      and k1: "copy_calls [SvnCopy ''file'' (svnpath r) rv (tag_root c l @ ''/'' @ path r)]
                 = [SvnCopy ''file'' (svnpath r) rv (tag_root c l @ ''/'' @ path r)]"
      and k2: "copy_calls [] = []"
      by (simp_all add: copy_calls_def)
    have fl: "filter (?pass c) (l # rest) = l # filter (?pass c) rest"
      using True by simp
    have cc: "copy_calls ?seg = map (\<lambda>l. SvnCopy ''file'' (svnpath r) rv (tag_root c l @ ''/'' @ path r))
                                  (filter (?pass c) (l # rest))"
      unfolding fl copy_calls_append rootl k0 k1 k2 segd(2) seg'(2) pass5 tr5 by simp
    have rn: "revision_numbers ?seg = (if first then [svnRevNum c] else [])"
      by (simp add: segd(3) seg'(3))
    define ps where "ps = filter (?pass c) (l # rest)"
    have ne: "ps \<noteq> []" using True by (simp add: ps_def)
    have "labels_effect r rv first ps c (snd (processLabels_loop cfg r u rv False rest c5))"
      unfolding labels_effect_def
    proof (intro conjI exI [of _ ?seg] allI)
      show "appended c ?seg (snd (processLabels_loop cfg r u rv False rest c5))" by (rule app)
      show "copy_calls ?seg = map (\<lambda>l. SvnCopy ''file'' (svnpath r) rv (tag_root c l @ ''/'' @ path r)) ps"
        unfolding ps_def by (rule cc)
      show "revision_numbers ?seg = (if first \<and> ps \<noteq> [] then [svnRevNum c] else [])"
        using rn ne by simp
      show "take 1 ?seg = (if first \<and> ps \<noteq> [] then [RevisionHeader (svnRevNum c) (revProps c)] else take 1 ?seg)"
        by simp
      show "svnRevNum (snd (processLabels_loop cfg r u rv False rest c5))
              = svnRevNum c + (if first \<and> ps \<noteq> [] then 1 else 0)"
        using f5(1) rev5 ne by simp
      show "labels (snd (processLabels_loop cfg r u rv False rest c5)) = labels c"
        using f5(2) lab5 by simp
      show "\<And>k. tag_root (snd (processLabels_loop cfg r u rv False rest c5)) k = tag_root c k"
        using f5(3) tr5 by simp
    qed
    then show ?thesis
      unfolding eq3 ps_def .
  qed
qed





section \<open>A file version on a known branch\<close>

lemma extends_refl: "extends c c"
  unfolding extends_def using appended_refl by blast

lemma extends_trans: "extends c c1 \<Longrightarrow> extends c1 c2 \<Longrightarrow> extends c c2"
  unfolding extends_def using appended_trans by blast

lemma dirs_only_extends: "dirs_only c c' \<Longrightarrow> extends c c'"
  unfolding extends_def dirs_only_def by blast

lemma extends_write: "extends c (c\<lparr>out := WriteStream_write x (out c)\<rparr>)"
  unfolding extends_def using appended_write by blast

lemma emit_extends: "extends c (snd (emit call res c))"
  using emit_cases [of call res c] by (auto simp: extends_refl extends_write)

lemma andThen_extends:
  assumes "extends c (snd r)" and "\<And>c1. extends c1 (snd (f c1))"
  shows "extends c (snd (andThen r f))"
  using andThen_snd_cases [of r f] assms(1) extends_trans [OF assms(1) assms(2) [of "snd r"]]
  by auto

lemma dumpRevisionHeader_extends: "extends c (dumpRevisionHeader c)"
  unfolding extends_def using appended_dumpRevisionHeader by blast

lemma processLabels_loop_extends:
  "extends c (snd (processLabels_loop cfg r u rv first ls c))"
proof (induction ls arbitrary: first c)
  case Nil
  show ?case by (simp add: extends_refl)
next
  case (Cons l rest)
  show ?case
  proof (cases "case labels c of None \<Rightarrow> True | Some allowed \<Rightarrow> l \<in> set allowed")
    case False
    then show ?thesis using Cons [of c first] by simp
  next
    case True
    have c1: "extends c (if first then dumpRevisionHeader c else c)"
      by (simp add: dumpRevisionHeader_extends extends_refl)
    have k: "\<And>c3. extends c3 (snd (case map_of (svnTree c3) l of
                          None \<Rightarrow> (Some KeyError, c3)
                        | Some fileSet \<Rightarrow>
                            andThen (out_dumpSvnCopy cfg ''file'' (svnpath r) rv
                                       (getAbsolutePath fileSet (path r)) c3)
                              (\<lambda>c4. processLabels_loop cfg r u rv False rest
                                       (if labels c4 = None \<and> u
                                        then c4\<lparr>checklabels := insert l (checklabels c4)\<rparr>
                                        else c4))))"
    proof -
      fix c3
      have upd: "\<And>c4. extends c4 (if labels c4 = None \<and> u then c4\<lparr>checklabels := insert l (checklabels c4)\<rparr> else c4)"
        by (auto simp: extends_def appended_def)
      show "extends c3 (snd (case map_of (svnTree c3) l of
                          None \<Rightarrow> (Some KeyError, c3)
                        | Some fileSet \<Rightarrow>
                            andThen (out_dumpSvnCopy cfg ''file'' (svnpath r) rv
                                       (getAbsolutePath fileSet (path r)) c3)
                              (\<lambda>c4. processLabels_loop cfg r u rv False rest
                                       (if labels c4 = None \<and> u
                                        then c4\<lparr>checklabels := insert l (checklabels c4)\<rparr>
                                        else c4))))"
      proof (cases "map_of (svnTree c3) l")
        case None
        then show ?thesis by (simp add: extends_refl)
      next
        case (Some fileSet)
        have cont: "\<And>c4. extends c4 (snd (processLabels_loop cfg r u rv False rest
                      (if labels c4 = None \<and> u then c4\<lparr>checklabels := insert l (checklabels c4)\<rparr> else c4)))"
          by (rule extends_trans [OF upd Cons])
        have cp: "extends c3 (snd (out_dumpSvnCopy cfg ''file'' (svnpath r) rv (getAbsolutePath fileSet (path r)) c3))"
          by (simp add: out_dumpSvnCopy_def emit_extends)
        show ?thesis
          unfolding Some option.case
          by (rule andThen_extends [OF cp cont])
      qed
    qed
    define k where "k = (\<lambda>c3. case map_of (svnTree c3) l of
                          None \<Rightarrow> (Some KeyError, c3)
                        | Some fileSet \<Rightarrow>
                            andThen (out_dumpSvnCopy cfg ''file'' (svnpath r) rv
                                       (getAbsolutePath fileSet (path r)) c3)
                              (\<lambda>c4. processLabels_loop cfg r u rv False rest
                                       (if labels c4 = None \<and> u
                                        then c4\<lparr>checklabels := insert l (checklabels c4)\<rparr>
                                        else c4)))"
    define c1 where "c1 = (if first then dumpRevisionHeader c else c)"
    have unfold: "processLabels_loop cfg r u rv first (l # rest) c =
        andThen (getTagFileset cfg l c1) (\<lambda>c2. andThen (createParentDirs cfg l (path r) c2) k)"
      using True by (simp add: c1_def k_def Let_def)
    have kk: "\<And>c3. extends c3 (snd (k c3))"
      unfolding k_def by (rule k)
    have "extends c1 (snd (andThen (getTagFileset cfg l c1) (\<lambda>c2. andThen (createParentDirs cfg l (path r) c2) k)))"
      by (intro andThen_extends dirs_only_extends getTagFileset_dirs_only createParentDirs_dirs_only kk)
    then show ?thesis
      unfolding unfold using c1 [folded c1_def] by (rule extends_trans [rotated])
  qed
qed

lemma processLabels_extends: "extends c (snd (processLabels cfg r u c))"
proof -
  have "extends c (c\<lparr>ccTree := insert (path r, revision r) (ccTree c)\<rparr>)"
    by (simp add: extends_def appended_def)
  then show ?thesis
    unfolding processLabels_def Let_def
    by (rule extends_trans) (rule processLabels_loop_extends)
qed

lemma setRevisionProps_fields [simp]:
  "out (setRevisionProps cfg r c) = out c"
  "svnTree (setRevisionProps cfg r c) = svnTree c"
  "svnRevNum (setRevisionProps cfg r c) = svnRevNum c"
  "autoProps (setRevisionProps cfg r c) = autoProps c"
  "EmptyProps (setRevisionProps cfg r c) = EmptyProps c"
  "labels (setRevisionProps cfg r c) = labels c"
  by (simp_all add: setRevisionProps_def Let_def)

lemma setRevisionProps_svn_fields [simp]:
  "setRevisionProps cfg (r\<lparr>svnbranch := b, svnpath := p\<rparr>) c = setRevisionProps cfg r c"
  by (simp add: setRevisionProps_def)

lemma dumpRevisionHeader_fields [simp]:
  "svnTree (dumpRevisionHeader c) = svnTree c"
  "autoProps (dumpRevisionHeader c) = autoProps c"
  "EmptyProps (dumpRevisionHeader c) = EmptyProps c"
  "labels (dumpRevisionHeader c) = labels c"
  "revProps (dumpRevisionHeader c) = revProps c"
  "enabled (out (dumpRevisionHeader c)) = enabled (out c)"
  by (simp_all add: dumpRevisionHeader_def Let_def WriteStream_write_def)

lemma deref_cong_fields:
  "autoProps c' = autoProps c \<Longrightarrow> EmptyProps c' = EmptyProps c \<Longrightarrow> deref c' ref = deref c ref"
  by (cases ref) (simp_all add: deref_def split: option.splits)

lemma dumpFile_success:
  assumes "getFile cfg (path r) (revision r) False = Inr filecontent"
    and "toUTF8 cfg (slashes (svnpath r)) = Some u"
  shows "dumpFile cfg r action False c =
           (None, c\<lparr>out := WriteStream_write
                     (SvnFile action (svnpath r) (deref c (getProps cfg (autoProps c) (svnpath r))) filecontent) (out c)\<rparr>)"
  using assms
  by (simp add: dumpFile_def out_dumpSvnFile_def emit_def dumpSvnFile_def writeNodePath_def Let_def
        split: prod.splits)

text \<open>
  C1, as the code has it.  For a file version (\<open>checkin\<close>, \<open>mkbranch\<close> or \<open>mkelem\<close>)
  that passes the filters, on a branch that is already known and with a path that is
  already in the file set of that branch, whose content is fetched and whose node path is
  transcoded without exception, \<open>process\<close> is not a no-op, whatever the version number
  of the record, \<open>0\<close> included: it asks the stream to write a revision header with the
  current revision number and then a file node with the action \<open>change\<close> for the path
  under the branch.  The two reach the dump file, right after what it held, if the stream
  is enabled or the date of the record is after the cutoff date; otherwise the dump file
  is left as it was.
\<close>

theorem known_branch_and_path_writes_change:
  assumes np: "path ccRecord \<noteq> ''.''"
    and br: "case branches c of None \<Rightarrow> True | Some bs \<Rightarrow> derive_svnbranch ccRecord \<in> set bs"
    and ig: "\<not> isIgnored c (path ccRecord)"
    and ty: "type ccRecord = ''version''"
    and op: "operation ccRecord = ''checkin'' \<or> operation ccRecord = ''mkbranch'' \<or> operation ccRecord = ''mkelem''"
    and known: "map_of (svnTree c) (derive_svnbranch ccRecord) = Some branchFileSet"
    and present: "path ccRecord \<in> paths branchFileSet"
    and fetch: "getFile cfg (path ccRecord) (revision ccRecord) False = Inr filecontent"
    and utf: "toUTF8 cfg (slashes (getSvnBranchPath (derive_svnbranch ccRecord) @ ''/'' @ path ccRecord)) = Some u"
  shows "take (length (requests (out c)) + 2) (requests (out (snd (process cfg ccRecord c))))
       = requests (out c)
         @ [RevisionHeader (svnRevNum c) (revProps (setRevisionProps cfg ccRecord c)),
            SvnFile ''change'' (getSvnBranchPath (derive_svnbranch ccRecord) @ ''/'' @ path ccRecord)
              (deref c (getProps cfg (autoProps c) (getSvnBranchPath (derive_svnbranch ccRecord) @ ''/'' @ path ccRecord)))
              filecontent]
     \<and> (if enabled (out c)
           \<or> (case DUMP_SINCE_DATE cfg of None \<Rightarrow> False | Some since \<Rightarrow> seq_gt (date ccRecord) since)
        then take (length (dumpfile (out c)) + 2) (dumpfile (out (snd (process cfg ccRecord c))))
             = dumpfile (out c)
               @ [RevisionHeader (svnRevNum c) (revProps (setRevisionProps cfg ccRecord c)),
                  SvnFile ''change'' (getSvnBranchPath (derive_svnbranch ccRecord) @ ''/'' @ path ccRecord)
                    (deref c (getProps cfg (autoProps c) (getSvnBranchPath (derive_svnbranch ccRecord) @ ''/'' @ path ccRecord)))
                    filecontent]
        else dumpfile (out (snd (process cfg ccRecord c))) = dumpfile (out c))"
proof -
  let ?sp = "getSvnBranchPath (derive_svnbranch ccRecord) @ ''/'' @ path ccRecord"
  let ?r = "ccRecord\<lparr>svnbranch := derive_svnbranch ccRecord, svnpath := ?sp\<rparr>"
  define opened where "opened \<longleftrightarrow> enabled (out c)
           \<or> (case DUMP_SINCE_DATE cfg of None \<Rightarrow> False | Some since \<Rightarrow> seq_gt (date ccRecord) since)"
  define c1 where "c1 = (case DUMP_SINCE_DATE cfg of
                           None \<Rightarrow> c
                         | Some since \<Rightarrow>
                             if disabled (out c) \<and> seq_gt (date ccRecord) since
                             then c\<lparr>out := enable (out c)\<rparr> else c)"
  define c2 where "c2 = setRevisionProps cfg ccRecord c1"
  define c3 where "c3 = dumpRevisionHeader c2"
  define header where "header = RevisionHeader (svnRevNum c) (revProps (setRevisionProps cfg ccRecord c))"
  define file_call where
    "file_call = SvnFile ''change'' ?sp (deref c (getProps cfg (autoProps c) ?sp)) filecontent"
  define c4 where "c4 = c3\<lparr>out := WriteStream_write file_call (out c3)\<rparr>"
  have f1: "requests (out c1) = requests (out c)" "dumpfile (out c1) = dumpfile (out c)"
    "enabled (out c1) = opened" "svnTree c1 = svnTree c" "autoProps c1 = autoProps c"
    "EmptyProps c1 = EmptyProps c" "svnRevNum c1 = svnRevNum c" "revProps c1 = revProps c"
    by (auto simp: c1_def opened_def enable_def disabled_def split: option.splits)
  have rp: "revProps c2 = revProps (setRevisionProps cfg ccRecord c)"
    by (simp add: c2_def setRevisionProps_def Let_def f1)
  have p1: "process cfg ccRecord c = process_file_known cfg ?r branchFileSet c2"
    using np br ig ty op known
    by (simp add: process_def Let_def c2_def c1_def f1 [unfolded c1_def] cong: option.case_cong split: option.splits)
  have ap: "autoProps c3 = autoProps c"
    by (simp add: c3_def c2_def f1)
  have dr: "deref c3 x = deref c x" for x
    by (rule deref_cong_fields) (simp_all add: c3_def c2_def f1)
  have d: "dumpFile cfg ?r ''change'' False c3 = (None, c4)"
    using dumpFile_success [of cfg ?r filecontent u "''change''" c3] fetch utf
    by (simp add: c4_def file_call_def dr ap)
  have p2: "process_file_known cfg ?r branchFileSet c2 = processLabels cfg ?r True c4"
    using present d by (simp add: process_file_known_def Let_def c3_def andThen_def)
  have "extends c4 (snd (processLabels cfg ?r True c4))"
    by (rule processLabels_extends)
  then obtain seg where seg: "appended c4 seg (snd (processLabels cfg ?r True c4))"
    unfolding extends_def by blast
  have e4: "enabled (out c4) = opened"
    by (simp add: c4_def c3_def c2_def f1 WriteStream_write_def Let_def)
  have r4: "requests (out c4) = requests (out c) @ [header, file_call]"
    by (simp add: c4_def c3_def c2_def dumpRevisionHeader_def Let_def WriteStream_write_def f1 header_def rp [unfolded c2_def])
  have d4: "dumpfile (out c4) = dumpfile (out c) @ (if opened then [header, file_call] else [])"
    using f1(3)
    by (simp add: c4_def c3_def c2_def dumpRevisionHeader_def Let_def WriteStream_write_def f1 header_def rp [unfolded c2_def])
  have rq: "requests (out (snd (process cfg ccRecord c))) = requests (out c) @ [header, file_call] @ seg"
    using seg unfolding p1 p2 appended_def r4 by simp
  have df: "dumpfile (out (snd (process cfg ccRecord c)))
              = dumpfile (out c) @ (if opened then [header, file_call] @ seg else [])"
    using seg unfolding p1 p2 appended_def d4 e4 by simp
  show ?thesis
    unfolding rq df opened_def [symmetric] header_def [symmetric] file_call_def [symmetric]
    by simp
qed


theorem known_branch_and_path_writes_change_witness:
  "revNumber version_zero_record = ''0''
   \<and> take (length (requests (out branched_state)) + 2)
        (requests (out (snd (process example_config version_zero_record branched_state))))
      = requests (out branched_state)
        @ [RevisionHeader 3 (revProps (setRevisionProps example_config version_zero_record branched_state)),
           SvnFile ''change'' ''branches/dev/f'' SvnProperties_init ''f@@/main/dev/0'']
   \<and> take (length (dumpfile (out branched_state)) + 2)
        (dumpfile (out (snd (process example_config version_zero_record branched_state))))
      = dumpfile (out branched_state)
        @ [RevisionHeader 3 (revProps (setRevisionProps example_config version_zero_record branched_state)),
           SvnFile ''change'' ''branches/dev/f'' SvnProperties_init ''f@@/main/dev/0'']
   \<and> take (length (requests (out suppressed_state)) + 2)
        (requests (out (snd (process cutoff_config version_zero_record suppressed_state))))
      = requests (out suppressed_state)
        @ [RevisionHeader 3 (revProps (setRevisionProps cutoff_config version_zero_record suppressed_state)),
           SvnFile ''change'' ''branches/dev/f'' SvnProperties_init ''f@@/main/dev/0'']
   \<and> dumpfile (out (snd (process cutoff_config version_zero_record suppressed_state))) = [FormatVersion]"
proof -
  have z: "revNumber version_zero_record = ''0''" by code_simp
  have np: "path version_zero_record \<noteq> ''.''" by code_simp
  have ty: "type version_zero_record = ''version''" by code_simp
  have op: "operation version_zero_record = ''checkin'' \<or> operation version_zero_record = ''mkbranch''
            \<or> operation version_zero_record = ''mkelem''" by code_simp
  have present: "path version_zero_record \<in> paths \<lparr>root = ''branches/dev'', paths = {''g'', ''f''}\<rparr>" by code_simp
  have sp: "getSvnBranchPath (derive_svnbranch version_zero_record) @ ''/'' @ path version_zero_record = ''branches/dev/f''"
    by code_simp
  have br: "case branches branched_state of None \<Rightarrow> True | Some bs \<Rightarrow> derive_svnbranch version_zero_record \<in> set bs"
    by code_simp
  have ig: "\<not> isIgnored branched_state (path version_zero_record)" by code_simp
  have known: "map_of (svnTree branched_state) (derive_svnbranch version_zero_record)
                 = Some \<lparr>root = ''branches/dev'', paths = {''g'', ''f''}\<rparr>" by code_simp
  have fetch: "getFile example_config (path version_zero_record) (revision version_zero_record) False = Inr ''f@@/main/dev/0''"
    by code_simp
  have utf: "toUTF8 example_config (slashes (getSvnBranchPath (derive_svnbranch version_zero_record) @ ''/'' @ path version_zero_record))
               = Some ''branches/dev/f''" by code_simp
  have opened: "enabled (out branched_state)
           \<or> (case DUMP_SINCE_DATE example_config of None \<Rightarrow> False
               | Some since \<Rightarrow> seq_gt (date version_zero_record) since)" by code_simp
  have n: "svnRevNum branched_state = 3" by code_simp
  have props: "deref branched_state (getProps example_config (autoProps branched_state) ''branches/dev/f'') = SvnProperties_init"
    by code_simp
  have br': "case branches suppressed_state of None \<Rightarrow> True | Some bs \<Rightarrow> derive_svnbranch version_zero_record \<in> set bs"
    by code_simp
  have ig': "\<not> isIgnored suppressed_state (path version_zero_record)" by code_simp
  have known': "map_of (svnTree suppressed_state) (derive_svnbranch version_zero_record)
                 = Some \<lparr>root = ''branches/dev'', paths = {''g'', ''f''}\<rparr>" by code_simp
  have fetch': "getFile cutoff_config (path version_zero_record) (revision version_zero_record) False = Inr ''f@@/main/dev/0''"
    by code_simp
  have utf': "toUTF8 cutoff_config (slashes (getSvnBranchPath (derive_svnbranch version_zero_record) @ ''/'' @ path version_zero_record))
               = Some ''branches/dev/f''" by code_simp
  have closed: "\<not> (enabled (out suppressed_state)
           \<or> (case DUMP_SINCE_DATE cutoff_config of None \<Rightarrow> False
               | Some since \<Rightarrow> seq_gt (date version_zero_record) since))" by code_simp
  have n': "svnRevNum suppressed_state = 3" by code_simp
  have props': "deref suppressed_state (getProps cutoff_config (autoProps suppressed_state) ''branches/dev/f'') = SvnProperties_init"
    by code_simp
  have file': "dumpfile (out suppressed_state) = [FormatVersion]" by code_simp
  show ?thesis
    using z
      known_branch_and_path_writes_change [OF np br ig ty op known present fetch utf,
        unfolded if_P [OF opened] sp props n]
      known_branch_and_path_writes_change [OF np br' ig' ty op known' present fetch' utf',
        unfolded if_not_P [OF closed] sp props' n' file']
    by blast
qed

text \<open>
  The claim C1 as stated (version 0 on a known branch with the path present is a no-op)
  fails: the branch \<open>dev\<close> is known and holds \<open>f\<close>, the record is version 0 of \<open>f\<close> on
  \<open>dev\<close>, and \<open>process\<close> writes revision 3 with a \<open>change\<close> of \<open>branches/dev/f\<close>.
\<close>

theorem version_zero_on_known_branch_is_written:
  "(case map_of (svnTree branched_state) ''dev'' of None \<Rightarrow> False | Some branchFileSet \<Rightarrow> ''f'' \<in> paths branchFileSet)
   \<and> derive_svnbranch version_zero_record = ''dev''
   \<and> path version_zero_record = ''f''
   \<and> revNumber version_zero_record = ''0''
   \<and> fst (process example_config version_zero_record branched_state) = None
   \<and> drop (length (dumpfile (out branched_state)))
        (dumpfile (out (snd (process example_config version_zero_record branched_state))))
      = [RevisionHeader 3 (revProps (snd (process example_config version_zero_record branched_state))),
         SvnFile ''change'' ''branches/dev/f'' SvnProperties_init ''f@@/main/dev/0'']"
  by code_simp

section \<open>Properties of SvnAutoProps.getProps\<close>

lemma find_map_keys:
  "List.find (\<lambda>kv. P (fst kv)) (map (\<lambda>k. (k, f k)) xs) = map_option (\<lambda>k. (k, f k)) (List.find P xs)"
  by (induction xs) simp_all

lemma iteritems_keys:
  assumes "set (ord (map fst d)) \<subseteq> set (map fst d)"
  shows "iteritems ord d = map (\<lambda>k. (k, the (map_of d k))) (ord (map fst d))"
  unfolding iteritems_def using assms by (intro map_filter_keys) simp

text \<open>
  C9, as the code has it.  \<open>getProps\<close> returns the property set stored under the first
  pattern that matches the base name of the file in the order in which the dictionary
  \<open>autoProps\<close> is iterated (whatever that order is, as long as it runs over the keys of
  the dictionary): if no pattern of the mapping matches, the result is the shared
  \<open>EmptyProps\<close>; otherwise it is the set of a pattern of the mapping that matches.
\<close>

theorem getProps_first_in_dictionary_order:
  assumes "set (dict_order cfg (map fst aps)) = set (map fst aps)"
  shows "getProps cfg aps filepath =
           (case List.find (fnmatch cfg (basename filepath)) (dict_order cfg (map fst aps)) of
              Some pattern \<Rightarrow> AutoProp pattern
            | None \<Rightarrow> EmptyPropsRef)
       \<and> ((\<forall>pattern \<in> set (map fst aps). \<not> fnmatch cfg (basename filepath) pattern)
            \<longrightarrow> getProps cfg aps filepath = EmptyPropsRef)
       \<and> (\<forall>pattern. getProps cfg aps filepath = AutoProp pattern
            \<longrightarrow> pattern \<in> set (map fst aps) \<and> fnmatch cfg (basename filepath) pattern)"
proof -
  let ?P = "fnmatch cfg (basename filepath)"
  let ?ks = "dict_order cfg (map fst aps)"
  have it: "iteritems (dict_order cfg) aps = map (\<lambda>k. (k, the (map_of aps k))) ?ks"
    using assms by (intro iteritems_keys) simp
  have eq: "getProps cfg aps filepath =
           (case List.find ?P ?ks of Some pattern \<Rightarrow> AutoProp pattern | None \<Rightarrow> EmptyPropsRef)"
    unfolding getProps_def Let_def it find_map_keys [of ?P]
    by (cases "List.find ?P ?ks") simp_all
  have none: "(\<forall>pattern \<in> set (map fst aps). \<not> ?P pattern) \<longrightarrow> List.find ?P ?ks = None"
    using assms by (auto simp: find_None_iff)
  have some: "\<And>pattern. List.find ?P ?ks = Some pattern \<Longrightarrow> pattern \<in> set (map fst aps) \<and> ?P pattern"
    using assms by (auto simp: find_Some_iff)
  show ?thesis
    unfolding eq using none some by (auto split: option.splits)
qed

theorem getProps_first_in_dictionary_order_witness:
  "getProps autoprops_config (load autoprops_lines) ''docs/a.txt'' = AutoProp ''*''
   \<and> fnmatch autoprops_config (basename ''docs/a.txt'') ''*''"
proof -
  have ld: "load autoprops_lines
            = [(''*.txt'', load_props ''svn:eol-style=native''), (''*'', load_props ''svn:keywords=Id'')]"
    by code_simp
  have slots: "string_hash_slot ''*.txt'' = 5" "string_hash_slot ''*'' = 3"
    by (simp_all add: string_hash_slot_def xor3_def)
  have ord: "dict_order autoprops_config [''*.txt'', ''*''] = [''*'', ''*.txt'']"
    by (simp add: autoprops_config_def small_dict_order_def slots)
  have fm: "fnmatch autoprops_config (basename ''docs/a.txt'') ''*''"
    by (simp add: autoprops_config_def basename_def)
  have h: "set (dict_order autoprops_config (map fst (load autoprops_lines))) = set (map fst (load autoprops_lines))"
    by (simp add: autoprops_config_def small_dict_order_def)
  have e: "List.find (fnmatch autoprops_config (basename ''docs/a.txt''))
             (dict_order autoprops_config (map fst (load autoprops_lines))) = Some ''*''"
    using fm by (simp add: ld ord)
  show ?thesis
    using getProps_first_in_dictionary_order [OF h, of "''docs/a.txt''"] e fm by simp
qed

text \<open>
  The claim C9 as stated (the first matching pattern of the mapping file wins) fails: in
  the file \<open>*.txt\<close> comes before \<open>*\<close>, both match \<open>a.txt\<close>, and the dictionary is
  iterated in the order of the slots (3 for \<open>*\<close>, 5 for \<open>*.txt\<close>), so the properties of
  the second line are returned.
\<close>

theorem getProps_not_first_line:
  "map fst (load autoprops_lines) = [''*.txt'', ''*'']
   \<and> fnmatch autoprops_config (basename ''docs/a.txt'') ''*.txt''
   \<and> map string_hash_slot [''*.txt'', ''*''] = [5, 3]
   \<and> getProps autoprops_config (load autoprops_lines) ''docs/a.txt'' = AutoProp ''*''
   \<and> deref (Converter_init None None None (load autoprops_lines))
        (getProps autoprops_config (load autoprops_lines) ''docs/a.txt'')
      = load_props ''svn:keywords=Id''
   \<and> load_props ''svn:keywords=Id'' \<noteq> load_props ''svn:eol-style=native''"
proof -
  have ld: "load autoprops_lines
            = [(''*.txt'', load_props ''svn:eol-style=native''), (''*'', load_props ''svn:keywords=Id'')]"
    by code_simp
  have slots: "string_hash_slot ''*.txt'' = 5" "string_hash_slot ''*'' = 3"
    by (simp_all add: string_hash_slot_def xor3_def)
  have ord: "small_dict_order [''*.txt'', ''*''] = [''*'', ''*.txt'']"
    by (simp add: small_dict_order_def slots)
  have fm: "fnmatch_plain ''a.txt'' ''*.txt''" "fnmatch_plain ''a.txt'' ''*''" "basename ''docs/a.txt'' = ''a.txt''"
    by code_simp+
  have ne: "load_props ''svn:keywords=Id'' \<noteq> load_props ''svn:eol-style=native''"
    by code_simp
  have gp: "getProps autoprops_config (load autoprops_lines) ''docs/a.txt'' = AutoProp ''*''"
    by (simp add: getProps_def Let_def autoprops_config_def ld fm iteritems_def ord map_filter_simps)
  show ?thesis
    unfolding gp
    using ne fm slots
    by (simp add: ld autoprops_config_def deref_def Converter_init_def)
qed

section \<open>Every change comes after an add\<close>

text \<open>A path that was added stays added, and a list of requests is in order if it was before the last request and the last request is.\<close>

lemma added_rev_Cons: "added_rev before p \<Longrightarrow> added_rev (x # before) p"
  by (cases x) simp_all

lemma added_snoc: "added calls p \<Longrightarrow> added (calls @ [x]) p"
  by (simp add: added_def added_rev_Cons)

lemma added_append: "added calls p \<Longrightarrow> added (calls @ others) p"
proof (induction others rule: rev_induct)
  case Nil
  then show ?case by simp
next
  case (snoc x xs)
  then show ?case using added_snoc [of "calls @ xs" p x] by simp
qed

lemma changes_ok_snoc:
  "changes_ok before (calls @ [x]) =
     (changes_ok before calls \<and> call_ok (added_rev (rev calls @ before)) x)"
  by (induction calls arbitrary: before) auto

lemma every_change_has_add_snoc:
  "every_change_has_add (calls @ [x]) = (every_change_has_add calls \<and> call_ok (added calls) x)"
proof -
  have "added calls = added_rev (rev calls @ [])"
    by (rule ext) (simp add: added_def)
  then show ?thesis
    unfolding every_change_has_add_def changes_ok_snoc by simp
qed

lemma every_change_has_add_nth:
  "every_change_has_add calls \<longleftrightarrow>
     (\<forall>i < length calls. \<forall>p props filecontent.
        calls ! i = SvnFile ''change'' p props filecontent \<longrightarrow> added (take i calls) p)"
proof (induction calls rule: rev_induct)
  case Nil
  show ?case by (simp add: every_change_has_add_def)
next
  case (snoc x xs)
  have last: "call_ok (added xs) x
        \<longleftrightarrow> (\<forall>p props filecontent. x = SvnFile ''change'' p props filecontent \<longrightarrow> added xs p)"
    by (cases x) auto
  have split_all: "\<And>P. (\<forall>i < length (xs @ [x]). P i) \<longleftrightarrow> (\<forall>i < length xs. P i) \<and> P (length xs)"
    by (auto simp: less_Suc_eq)
  show ?case
    unfolding every_change_has_add_snoc snoc.IH last split_all
    by (simp add: nth_append)
qed

text \<open>
  The steps of the converter keep the invariant: writing to the stream, the dump
  functions, \<open>createParentDirs\<close>, \<open>getTagFileset\<close> (for a label that is not a branch
  name) and \<open>processLabels\<close>.
\<close>

lemma inv_cong: "out c' = out c \<Longrightarrow> svnTree c' = svnTree c \<Longrightarrow> replay_inv B s c' = replay_inv B s c"
  by (simp add: replay_inv_def stream_ok_def tree_ok_def)

lemma post_of_inv: "replay_inv B s (snd r) \<Longrightarrow> post B s r"
  by (cases "fst r") (simp_all add: post_def replay_inv_def)

lemma post_None: "fst r = None \<Longrightarrow> post B s r = replay_inv B s (snd r)"
  by (simp add: post_def)

lemma post_stream_ok: "post B s r \<Longrightarrow> stream_ok s (snd r)"
  by (cases "fst r") (simp_all add: post_def replay_inv_def)

lemma andThen_post:
  assumes "post B s r" and "\<And>c1. replay_inv B s c1 \<Longrightarrow> post B s (f c1)"
  shows "post B s (andThen r f)"
proof (cases "fst r")
  case None
  then have "andThen r f = f (snd r)" by (cases r) (simp add: andThen_def)
  then show ?thesis using assms None by (simp add: post_None)
next
  case (Some e)
  then have "andThen r f = r" by (cases r) (simp add: andThen_def)
  then show ?thesis using assms(1) by simp
qed

lemma andThen_inv:
  assumes "replay_inv B s (snd r)" and "\<And>c1. replay_inv B s c1 \<Longrightarrow> replay_inv B s (snd (f c1))"
  shows "replay_inv B s (snd (andThen r f))"
  using andThen_snd_cases [of r f] assms by auto

lemma stream_ok_write:
  "stream_ok s c \<Longrightarrow> call_ok (added (requests (out c))) x \<Longrightarrow>
   stream_ok s (c\<lparr>out := WriteStream_write x (out c)\<rparr>)"
  by (auto simp: stream_ok_def WriteStream_write_def Let_def every_change_has_add_snoc)

lemma tree_ok_write: "tree_ok B c \<Longrightarrow> tree_ok B (c\<lparr>out := WriteStream_write x (out c)\<rparr>)"
  by (auto simp: tree_ok_def WriteStream_write_def Let_def added_snoc)

lemma inv_write:
  "replay_inv B s c \<Longrightarrow> call_ok (added (requests (out c))) x \<Longrightarrow>
   replay_inv B s (c\<lparr>out := WriteStream_write x (out c)\<rparr>)"
  by (simp add: replay_inv_def stream_ok_write tree_ok_write)

lemma emit_inv:
  assumes "replay_inv B s c" and "call_ok (added (requests (out c))) call"
  shows "replay_inv B s (snd (emit call res c))"
  using emit_cases [of call res c] assms inv_write [of B s c call] inv_write [of B s c "Truncated call"]
  by auto

lemma emit_stream_ok:
  assumes "stream_ok s c" and "call_ok (added (requests (out c))) call"
  shows "stream_ok s (snd (emit call res c))"
  using emit_cases [of call res c] assms stream_ok_write [of s c call] stream_ok_write [of s c "Truncated call"]
  by auto

lemma out_dumpSvnDir_inv: "replay_inv B s c \<Longrightarrow> replay_inv B s (snd (out_dumpSvnDir cfg p c))"
  by (simp add: out_dumpSvnDir_def emit_inv)

lemma out_dumpSvnCopy_inv: "replay_inv B s c \<Longrightarrow> replay_inv B s (snd (out_dumpSvnCopy cfg kind src rv tgt c))"
  by (simp add: out_dumpSvnCopy_def emit_inv)

lemma out_dumpSvnDir_success:
  "fst (out_dumpSvnDir cfg p c) = None \<Longrightarrow>
   snd (out_dumpSvnDir cfg p c) = c\<lparr>out := WriteStream_write (SvnDir p) (out c)\<rparr>"
  using emit_cases [of "SvnDir p" "dumpSvnDir cfg p" c]
  by (auto simp: out_dumpSvnDir_def)

lemma requests_write [simp]: "requests (WriteStream_write x w) = requests w @ [x]"
  by (simp add: WriteStream_write_def Let_def)

lemma added_last_dir: "added (calls @ [SvnDir p]) p"
  by (simp add: added_def)

lemma added_last_file: "added (calls @ [SvnFile ''add'' p props filecontent]) p"
  by (simp add: added_def)

lemma added_last_copy:
  "added calls (src @ ''/'' @ p) \<Longrightarrow> added (calls @ [SvnCopy kind src rv tgt]) (tgt @ ''/'' @ p)"
  by (simp add: added_def)

lemma dumpRevisionHeader_inv: "replay_inv B s c \<Longrightarrow> replay_inv B s (dumpRevisionHeader c)"
proof -
  assume a: "replay_inv B s c"
  have "replay_inv B s (dumpRevisionHeader c) = replay_inv B s (c\<lparr>out := WriteStream_write (RevisionHeader (svnRevNum c) (revProps c)) (out c)\<rparr>)"
    by (rule inv_cong) (simp_all add: dumpRevisionHeader_def Let_def)
  then show ?thesis using inv_write [OF a, of "RevisionHeader (svnRevNum c) (revProps c)"] by simp
qed

lemma fileSet_add_inv:
  assumes "replay_inv B s c"
    and "\<And>fileSet. map_of (svnTree c) key = Some fileSet \<Longrightarrow> added (requests (out c)) (root fileSet @ ''/'' @ p)"
  shows "replay_inv B s (fileSet_add key p c)"
  using assms
  by (auto simp: replay_inv_def stream_ok_def tree_ok_def fileSet_add_def map_of_map_entry split: option.splits if_splits)

lemma createParentDirs_inv: "replay_inv B s c \<Longrightarrow> replay_inv B s (snd (createParentDirs cfg key p c))"
proof (induction cfg key p c rule: createParentDirs.induct)
  case (1 cfg key p c)
  show ?case
  proof (cases "map_of (svnTree c) key")
    case None
    then show ?thesis using "1.prems" by (subst createParentDirs.simps) simp
  next
    case (Some fileSet)
    show ?thesis
    proof (cases "dirname p \<noteq> [] \<and> dirname p \<notin> paths fileSet")
      case False
      with Some show ?thesis using "1.prems" by (subst createParentDirs.simps) (auto simp: Let_def)
    next
      case True
      show ?thesis
      proof (cases "length (dirname p) < length p")
        case False
        with True Some show ?thesis using "1.prems" by (subst createParentDirs.simps) (auto simp: Let_def)
      next
        case shorter: True
        define r1 where "r1 = createParentDirs cfg key (dirname p) c"
        define nodePath where "nodePath = getAbsolutePath fileSet (dirname p)"
        define r2 where "r2 = out_dumpSvnDir cfg nodePath (snd r1)"
        have i1: "replay_inv B s (snd r1)"
          unfolding r1_def using "1.IH" [OF Some refl True shorter "1.prems"] .
        have i2: "replay_inv B s (snd r2)"
          unfolding r2_def using i1 by (rule out_dumpSvnDir_inv)
        have roots: "tag_root (snd r2) key = tag_root c key"
          using createParentDirs_dirs_only [of c cfg key "dirname p"]
            out_dumpSvnDir_dirs_only [of "snd r1" cfg nodePath]
          unfolding r1_def r2_def dirs_only_def by simp
        have eq: "createParentDirs cfg key p c =
            andThen r1 (\<lambda>c1. andThen (out_dumpSvnDir cfg nodePath c1)
                 (\<lambda>c2. (None, fileSet_add key (dirname p) c2)))"
          unfolding r1_def nodePath_def 
          using Some True shorter by (subst createParentDirs.simps) (simp add: Let_def)
        show ?thesis
        proof (cases "fst r1")
          case (Some e)
          then show ?thesis unfolding eq using i1 by (cases r1) (simp add: andThen_def)
        next
          case n1: None
          then have eq1: "createParentDirs cfg key p c = andThen r2 (\<lambda>c2. (None, fileSet_add key (dirname p) c2))"
            unfolding eq r2_def by (cases r1) (simp add: andThen_def)
          show ?thesis
          proof (cases "fst r2")
            case (Some e)
            then show ?thesis unfolding eq1 using i2 by (cases r2) (simp add: andThen_def)
          next
            case n2: None
            then have eq2: "snd (createParentDirs cfg key p c) = fileSet_add key (dirname p) (snd r2)"
              unfolding eq1 by (cases r2) (simp add: andThen_def)
            have req: "requests (out (snd r2)) = requests (out (snd r1)) @ [SvnDir nodePath]"
              using out_dumpSvnDir_success [of cfg nodePath "snd r1"] n2 unfolding r2_def by simp
            have "replay_inv B s (fileSet_add key (dirname p) (snd r2))"
            proof (rule fileSet_add_inv [OF i2])
              fix fs assume "map_of (svnTree (snd r2)) key = Some fs"
              then have "root fs = root fileSet"
                using roots \<open>map_of (svnTree c) key = Some fileSet\<close> by (simp add: tag_root_def)
              then show "added (requests (out (snd r2))) (root fs @ ''/'' @ dirname p)"
                unfolding req nodePath_def getAbsolutePath_def by (simp add: added_last_dir)
            qed
            then show ?thesis unfolding eq2 .
          qed
        qed
      qed
    qed
  qed
qed

lemma getTagFileset_inv:
  assumes "replay_inv B s c" and "label \<notin> B"
  shows "replay_inv B s (snd (getTagFileset cfg label c))"
proof (cases "map_of (svnTree c) label")
  case None
  have "replay_inv B s (c\<lparr>svnTree := AList.update label (FileSet_init (getSvnTagPath label)) (svnTree c)\<rparr>)"
    using assms
    by (auto simp: replay_inv_def stream_ok_def tree_ok_def update_conv' FileSet_init_def split: if_splits)
  then show ?thesis
    using None by (simp add: getTagFileset_def Let_def out_dumpSvnDir_inv)
next
  case (Some fs)
  then show ?thesis using assms by (simp add: getTagFileset_def)
qed

lemma processLabels_loop_inv:
  assumes "replay_inv B s c" and "\<forall>l \<in> set ls. l \<notin> B"
  shows "replay_inv B s (snd (processLabels_loop cfg r u rv first ls c))"
  using assms
proof (induction ls arbitrary: first c)
  case Nil
  then show ?case by simp
next
  case (Cons l ls)
  show ?case
  proof (cases "case labels c of None \<Rightarrow> True | Some allowed \<Rightarrow> l \<in> set allowed")
    case False
    then show ?thesis using Cons by simp
  next
    case True
    define c1 where "c1 = (if first then dumpRevisionHeader c else c)"
    have i1: "replay_inv B s c1" unfolding c1_def using Cons.prems(1) by (simp add: dumpRevisionHeader_inv)
    have eq: "processLabels_loop cfg r u rv first (l # ls) c =
        andThen (getTagFileset cfg l c1)
              (\<lambda>c2. andThen (createParentDirs cfg l (path r) c2)
                 (\<lambda>c3. case map_of (svnTree c3) l of
                          None \<Rightarrow> (Some KeyError, c3)
                        | Some fileSet \<Rightarrow>
                            andThen (out_dumpSvnCopy cfg ''file'' (svnpath r) rv
                                       (getAbsolutePath fileSet (path r)) c3)
                              (\<lambda>c4. processLabels_loop cfg r u rv False ls
                                       (if labels c4 = None \<and> u
                                        then c4\<lparr>checklabels := insert l (checklabels c4)\<rparr>
                                        else c4))))"
      using True by (simp add: c1_def Let_def)
    have tail: "\<And>c4. replay_inv B s c4 \<Longrightarrow> replay_inv B s (snd (processLabels_loop cfg r u rv False ls
                                       (if labels c4 = None \<and> u
                                        then c4\<lparr>checklabels := insert l (checklabels c4)\<rparr>
                                        else c4)))"
    proof -
      fix c4 assume a: "replay_inv B s c4"
      have "replay_inv B s (c4\<lparr>checklabels := insert l (checklabels c4)\<rparr>) = replay_inv B s c4"
        by (rule inv_cong) simp_all
      with a have "replay_inv B s (if labels c4 = None \<and> u then c4\<lparr>checklabels := insert l (checklabels c4)\<rparr> else c4)"
        by simp
      then show "replay_inv B s (snd (processLabels_loop cfg r u rv False ls
                                       (if labels c4 = None \<and> u
                                        then c4\<lparr>checklabels := insert l (checklabels c4)\<rparr>
                                        else c4)))"
        using Cons.IH Cons.prems(2) by simp
    qed
    have copy: "\<And>c3. replay_inv B s c3 \<Longrightarrow> replay_inv B s (snd (case map_of (svnTree c3) l of
                          None \<Rightarrow> (Some KeyError, c3)
                        | Some fileSet \<Rightarrow>
                            andThen (out_dumpSvnCopy cfg ''file'' (svnpath r) rv
                                       (getAbsolutePath fileSet (path r)) c3)
                              (\<lambda>c4. processLabels_loop cfg r u rv False ls
                                       (if labels c4 = None \<and> u
                                        then c4\<lparr>checklabels := insert l (checklabels c4)\<rparr>
                                        else c4))))"
    proof -
      fix c3 assume a: "replay_inv B s c3"
      show "replay_inv B s (snd (case map_of (svnTree c3) l of
                          None \<Rightarrow> (Some KeyError, c3)
                        | Some fileSet \<Rightarrow>
                            andThen (out_dumpSvnCopy cfg ''file'' (svnpath r) rv
                                       (getAbsolutePath fileSet (path r)) c3)
                              (\<lambda>c4. processLabels_loop cfg r u rv False ls
                                       (if labels c4 = None \<and> u
                                        then c4\<lparr>checklabels := insert l (checklabels c4)\<rparr>
                                        else c4))))"
      proof (cases "map_of (svnTree c3) l")
        case None
        then show ?thesis using a by simp
      next
        case (Some fileSet)
        then show ?thesis
          using andThen_inv [OF out_dumpSvnCopy_inv [OF a] tail] by simp
      qed
    qed
    show ?thesis
      unfolding eq
      using Cons.prems(2)
      by (intro andThen_inv getTagFileset_inv i1 createParentDirs_inv copy) simp_all
  qed
qed

lemma processLabels_inv:
  assumes "replay_inv B s c" and "\<forall>l \<in> set (cclabels r). l \<notin> B"
  shows "replay_inv B s (snd (processLabels cfg r u c))"
proof -
  have "replay_inv B s (c\<lparr>ccTree := insert (path r, revision r) (ccTree c)\<rparr>) = replay_inv B s c"
    by (rule inv_cong) simp_all
  then show ?thesis
    using assms by (simp add: processLabels_def Let_def processLabels_loop_inv)
qed

text \<open>
  A file node: \<open>dumpFile\<close> keeps the invariant if a \<open>change\<close> is for a path that was
  added, and after an \<open>add\<close> the path is added.  A new branch: the copy of the parent
  adds every path of the parent under the new root.
\<close>

lemma set_on_ref_out [simp]: "out (set_on_ref ref k v c) = out c"
  by (cases ref) (simp_all add: set_on_ref_def)

lemma set_on_ref_svnTree [simp]: "svnTree (set_on_ref ref k v c) = svnTree c"
  by (cases ref) (simp_all add: set_on_ref_def)

lemma dumpFile_emit:
  assumes "getFile cfg (path r) (revision r) symlink = Inr contentFile"
  shows "\<exists>c1 props. out c1 = out c \<and> svnTree c1 = svnTree c
           \<and> dumpFile cfg r action symlink c
               = emit (SvnFile action (svnpath r) props contentFile)
                   (dumpSvnFile cfg action (svnpath r) props contentFile) c1"
proof -
  define ref where "ref = getProps cfg (autoProps c) (svnpath r)"
  define c1 where "c1 = (if symlink \<and> action = ''add'' then set_on_ref ref ''svn:special'' ''*'' c else c)"
  have "out c1 = out c" "svnTree c1 = svnTree c" by (simp_all add: c1_def)
  moreover have "dumpFile cfg r action symlink c
               = emit (SvnFile action (svnpath r) (deref c1 ref) contentFile)
                   (dumpSvnFile cfg action (svnpath r) (deref c1 ref) contentFile) c1"
    using assms by (simp add: dumpFile_def Let_def out_dumpSvnFile_def c1_def ref_def)
  ultimately show ?thesis by blast
qed

lemma dumpFile_inv:
  assumes "replay_inv B s c" and "action = ''change'' \<longrightarrow> added (requests (out c)) (svnpath r)"
  shows "replay_inv B s (snd (dumpFile cfg r action symlink c))"
proof (cases "getFile cfg (path r) (revision r) symlink")
  case (Inl e)
  then show ?thesis using assms(1) by (simp add: dumpFile_def)
next
  case (Inr contentFile)
  from dumpFile_emit [where action = action and c = c, OF Inr]
  obtain c1 props where o: "out c1 = out c" "svnTree c1 = svnTree c"
    and eq: "dumpFile cfg r action symlink c
               = emit (SvnFile action (svnpath r) props contentFile)
                   (dumpSvnFile cfg action (svnpath r) props contentFile) c1"
    by blast
  have i1: "replay_inv B s c1" using inv_cong [OF o, of B s] assms(1) by simp
  show ?thesis
    unfolding eq using assms(2) o by (intro emit_inv [OF i1]) simp
qed

lemma dumpFile_added:
  assumes "fst (dumpFile cfg r ''add'' symlink c) = None"
  shows "added (requests (out (snd (dumpFile cfg r ''add'' symlink c)))) (svnpath r)"
proof (cases "getFile cfg (path r) (revision r) symlink")
  case (Inl e)
  then show ?thesis using assms by (simp add: dumpFile_def)
next
  case (Inr contentFile)
  from dumpFile_emit [where action = "''add''" and c = c, OF Inr]
  obtain c1 props where o: "out c1 = out c" "svnTree c1 = svnTree c"
    and eq: "dumpFile cfg r ''add'' symlink c
               = emit (SvnFile ''add'' (svnpath r) props contentFile)
                   (dumpSvnFile cfg ''add'' (svnpath r) props contentFile) c1"
    by blast
  show ?thesis
    using assms emit_cases [of "SvnFile ''add'' (svnpath r) props contentFile"
        "dumpSvnFile cfg ''add'' (svnpath r) props contentFile" c1]
    unfolding eq by (auto simp: added_last_file)
qed

lemma out_dumpSvnDir_added:
  assumes "fst (out_dumpSvnDir cfg p c) = None"
  shows "added (requests (out (snd (out_dumpSvnDir cfg p c)))) p"
  using out_dumpSvnDir_success [OF assms] by (simp add: added_last_dir)

lemma add_path_inv:
  assumes i: "replay_inv B s c" and k: "key \<in> B" and sp: "nodePath = getSvnBranchPath key @ ''/'' @ p"
    and f_inv: "\<And>c2. replay_inv B s c2 \<Longrightarrow> replay_inv B s (snd (f c2))"
    and f_add: "\<And>c2. fst (f c2) = None \<Longrightarrow> added (requests (out (snd (f c2)))) nodePath"
  shows "replay_inv B s (snd (andThen (createParentDirs cfg key p c)
            (\<lambda>c2. andThen (f c2) (\<lambda>c3. (None, fileSet_add key p c3)))))"
proof (rule andThen_inv [OF createParentDirs_inv [OF i]])
  fix c2 assume i2: "replay_inv B s c2"
  have i3: "replay_inv B s (snd (f c2))" using f_inv [OF i2] .
  show "replay_inv B s (snd (andThen (f c2) (\<lambda>c3. (None, fileSet_add key p c3))))"
  proof (cases "fst (f c2)")
    case None
    then have eq: "andThen (f c2) (\<lambda>c3. (None, fileSet_add key p c3)) = (None, fileSet_add key p (snd (f c2)))"
      by (cases "f c2") (simp add: andThen_def)
    have "replay_inv B s (fileSet_add key p (snd (f c2)))"
    proof (rule fileSet_add_inv [OF i3])
      fix fs assume "map_of (svnTree (snd (f c2))) key = Some fs"
      then have "root fs = getSvnBranchPath key"
        using i3 k by (auto simp: replay_inv_def tree_ok_def)
      then show "added (requests (out (snd (f c2)))) (root fs @ ''/'' @ p)"
        using f_add [OF None] sp by simp
    qed
    then show ?thesis unfolding eq by simp
  next
    case (Some e)
    then have "andThen (f c2) (\<lambda>c3. (None, fileSet_add key p c3)) = f c2"
      by (cases "f c2") (simp add: andThen_def)
    then show ?thesis using i3 by simp
  qed
qed

lemma add_file_inv:
  assumes "replay_inv B s c" and "key \<in> B" and "svnpath r = getSvnBranchPath key @ ''/'' @ path r"
  shows "replay_inv B s (snd (andThen (createParentDirs cfg key (path r) c)
            (\<lambda>c2. andThen (dumpFile cfg r ''add'' symlink c2) (\<lambda>c3. (None, fileSet_add key (path r) c3)))))"
  using assms(1,2,3)
  by (rule add_path_inv) (simp_all add: dumpFile_inv dumpFile_added)

lemma add_dir_inv:
  assumes "replay_inv B s c" and "key \<in> B" and "nodePath = getSvnBranchPath key @ ''/'' @ p"
  shows "replay_inv B s (snd (andThen (createParentDirs cfg key p c)
            (\<lambda>c2. andThen (out_dumpSvnDir cfg nodePath c2) (\<lambda>c3. (None, fileSet_add key p c3)))))"
  using assms(1,2,3)
  by (rule add_path_inv) (simp_all add: out_dumpSvnDir_inv out_dumpSvnDir_added)

lemma change_known:
  assumes "replay_inv B s c" and "map_of (svnTree c) key = Some fileSet" and "key \<in> B" and "p \<in> paths fileSet"
  shows "added (requests (out c)) (getSvnBranchPath key @ ''/'' @ p)"
proof -
  have t: "tree_ok B c" using assms(1) by (simp add: replay_inv_def)
  have "root fileSet = getSvnBranchPath key"
    using t assms(2,3) unfolding tree_ok_def by blast
  moreover have "added (requests (out c)) (root fileSet @ ''/'' @ p)"
    using t assms(2,4) unfolding tree_ok_def by blast
  ultimately show ?thesis by simp
qed

lemma new_toplevel_branch_inv: "replay_inv B s c \<Longrightarrow> replay_inv B s (snd (new_toplevel_branch cfg r c))"
proof -
  assume a: "replay_inv B s c"
  have "replay_inv B s (c\<lparr>svnTree := AList.update (svnbranch r) (FileSet_init (getSvnBranchPath (svnbranch r))) (svnTree c)\<rparr>)"
    using a
    by (auto simp: replay_inv_def stream_ok_def tree_ok_def update_conv' FileSet_init_def split: if_splits)
  then show ?thesis
    by (simp add: new_toplevel_branch_def Let_def out_dumpSvnDir_inv)
qed

lemma copy_branch_post:
  assumes i: "replay_inv B s c" and par: "map_of (svnTree c) pk = Some parent" and pk: "pk \<in> B"
  shows "post B s (out_dumpSvnCopy cfg kind (getSvnBranchPath pk) rv (getSvnBranchPath k)
            (c\<lparr>svnTree := AList.update k (parent\<lparr>root := getSvnBranchPath k\<rparr>) (svnTree c)\<rparr>))"
proof -
  define c1 where "c1 = c\<lparr>svnTree := AList.update k (parent\<lparr>root := getSvnBranchPath k\<rparr>) (svnTree c)\<rparr>"
  define call where "call = SvnCopy kind (getSvnBranchPath pk) rv (getSvnBranchPath k)"
  define res where "res = out_dumpSvnCopy cfg kind (getSvnBranchPath pk) rv (getSvnBranchPath k) c1"
  have s1: "stream_ok s c1" using i by (simp add: replay_inv_def stream_ok_def c1_def)
  have so: "stream_ok s (snd res)"
    unfolding res_def out_dumpSvnCopy_def by (rule emit_stream_ok [OF s1]) simp
  show ?thesis
  proof (cases "fst res")
    case (Some e)
    then show ?thesis using so unfolding res_def c1_def by (simp add: post_def)
  next
    case None
    then have eq: "snd res = c1\<lparr>out := WriteStream_write call (out c1)\<rparr>"
      unfolding res_def call_def by (rule out_dumpSvnCopy_success)
    have t: "tree_ok B (c1\<lparr>out := WriteStream_write call (out c1)\<rparr>)"
      unfolding tree_ok_def
    proof (intro allI impI)
      fix key fileSet
      assume m: "map_of (svnTree (c1\<lparr>out := WriteStream_write call (out c1)\<rparr>)) key = Some fileSet"
      show "(\<forall>p\<in>paths fileSet. added (requests (out (c1\<lparr>out := WriteStream_write call (out c1)\<rparr>))) (root fileSet @ ''/'' @ p))
            \<and> (key \<in> B \<longrightarrow> root fileSet = getSvnBranchPath key)"
      proof (cases "key = k")
        case True
        then have fs: "fileSet = parent\<lparr>root := getSvnBranchPath k\<rparr>"
          using m by (simp add: c1_def update_conv')
        have "\<forall>p\<in>paths parent. added (requests (out c) @ [call]) (getSvnBranchPath k @ ''/'' @ p)"
        proof
          fix p assume "p \<in> paths parent"
          then have "added (requests (out c)) (getSvnBranchPath pk @ ''/'' @ p)"
            by (rule change_known [OF i par pk])
          then show "added (requests (out c) @ [call]) (getSvnBranchPath k @ ''/'' @ p)"
            unfolding call_def by (rule added_last_copy)
        qed
        then show ?thesis
          using True by (simp add: fs c1_def)
      next
        case False
        then have "map_of (svnTree c) key = Some fileSet"
          using m by (simp add: c1_def update_conv')
        then show ?thesis
          using i by (auto simp: replay_inv_def tree_ok_def c1_def added_snoc)
      qed
    qed
    have "stream_ok s (c1\<lparr>out := WriteStream_write call (out c1)\<rparr>)"
      using so unfolding eq .
    with t have "replay_inv B s (snd res)" unfolding eq by (simp add: replay_inv_def)
    then show ?thesis using None unfolding res_def c1_def by (simp add: post_def)
  qed
qed

lemma create_branch_post:
  assumes i: "replay_inv B s c" and par: "2 \<le> length (branchNames r) \<longrightarrow> last (butlast (branchNames r)) \<in> B"
  shows "post B s (create_branch cfg r rv c)"
proof (cases "length (branchNames r) < 2")
  case True
  then show ?thesis
    by (simp add: create_branch_def post_of_inv new_toplevel_branch_inv [OF i])
next
  case False
  define pk where "pk = last (butlast (branchNames r))"
  have pk: "pk \<in> B" using False par by (simp add: pk_def)
  have top: "post B s (new_toplevel_branch cfg r c)"
    by (rule post_of_inv) (rule new_toplevel_branch_inv [OF i])
  have stop: "post B s (Some SystemExit, c)"
    using i by (simp add: post_def replay_inv_def)
  show ?thesis
  proof (cases "map_of (svnTree c) pk")
    case None
    then show ?thesis
      using False top stop by (simp add: create_branch_def Let_def pk_def)
  next
    case (Some parent)
    show ?thesis
    proof (cases "paths parent \<noteq> {}")
      case False
      then show ?thesis
        using \<open>\<not> length (branchNames r) < 2\<close> Some top stop
        by (simp add: create_branch_def Let_def pk_def)
    next
      case True
      then show ?thesis
        using \<open>\<not> length (branchNames r) < 2\<close> Some copy_branch_post [OF i Some pk, of cfg "''dir''" rv "svnbranch r"]
        by (simp add: create_branch_def Let_def pk_def)
    qed
  qed
qed

text \<open>The branches of \<open>process\<close>, \<open>process\<close> itself and the replay.\<close>

lemma process_file_known_inv:
  assumes i: "replay_inv B s c" and known: "map_of (svnTree c) (svnbranch r) = Some branchFileSet"
    and k: "svnbranch r \<in> B" and sp: "svnpath r = getSvnBranchPath (svnbranch r) @ ''/'' @ path r"
    and ls: "\<forall>l \<in> set (cclabels r). l \<notin> B"
  shows "replay_inv B s (snd (process_file_known cfg r branchFileSet c))"
proof -
  define c1 where "c1 = dumpRevisionHeader c"
  have i1: "replay_inv B s c1" unfolding c1_def using i by (rule dumpRevisionHeader_inv)
  have t1: "svnTree c1 = svnTree c" by (simp add: c1_def dumpRevisionHeader_def Let_def)
  have labels: "\<And>c2. replay_inv B s c2 \<Longrightarrow> replay_inv B s (snd (processLabels cfg r True c2))"
    using ls by (simp add: processLabels_inv)
  show ?thesis
  proof (cases "path r \<in> paths branchFileSet")
    case True
    have "added (requests (out c1)) (svnpath r)"
      unfolding sp using i1 known k True by (intro change_known [of B s c1 _ branchFileSet]) (simp_all add: t1)
    then have "replay_inv B s (snd (dumpFile cfg r ''change'' False c1))"
      using i1 by (simp add: dumpFile_inv)
    then show ?thesis
      using True labels by (simp add: process_file_known_def Let_def c1_def andThen_inv)
  next
    case False
    then show ?thesis
      using labels add_file_inv [OF i1 k sp, of cfg False]
      by (simp add: process_file_known_def Let_def c1_def andThen_inv)
  qed
qed

lemma process_file_new_post:
  assumes i: "replay_inv B s c"
    and k: "svnbranch r \<in> B" and sp: "svnpath r = getSvnBranchPath (svnbranch r) @ ''/'' @ path r"
    and par: "2 \<le> length (branchNames r) \<longrightarrow> last (butlast (branchNames r)) \<in> B"
    and ls: "\<forall>l \<in> set (cclabels r). l \<notin> B"
  shows "post B s (process_file_new cfg r c)"
proof -
  define c1 where "c1 = dumpRevisionHeader c"
  have i1: "replay_inv B s c1" unfolding c1_def using i by (rule dumpRevisionHeader_inv)
  have labels: "\<And>c2. replay_inv B s c2 \<Longrightarrow> replay_inv B s (snd (processLabels cfg r True c2))"
    using ls by (simp add: processLabels_inv)
  have rest: "\<And>c2. replay_inv B s c2 \<Longrightarrow>
      post B s (andThen
              (case map_of (svnTree c2) (svnbranch r) of
                 None \<Rightarrow> (Some KeyError, c2)
               | Some newBranchFileSet \<Rightarrow>
                   if path r \<in> paths newBranchFileSet then
                     (if revNumber r \<noteq> ''0'' then dumpFile cfg r ''change'' False c2
                      else (None, c2))
                   else
                     andThen (createParentDirs cfg (svnbranch r) (path r) c2)
                       (\<lambda>c3. andThen (dumpFile cfg r ''add'' False c3)
                          (\<lambda>c4. (None, fileSet_add (svnbranch r) (path r) c4))))
              (processLabels cfg r True))"
  proof -
    fix c2 assume i2: "replay_inv B s c2"
    have "replay_inv B s (snd (case map_of (svnTree c2) (svnbranch r) of
                 None \<Rightarrow> (Some KeyError, c2)
               | Some newBranchFileSet \<Rightarrow>
                   if path r \<in> paths newBranchFileSet then
                     (if revNumber r \<noteq> ''0'' then dumpFile cfg r ''change'' False c2
                      else (None, c2))
                   else
                     andThen (createParentDirs cfg (svnbranch r) (path r) c2)
                       (\<lambda>c3. andThen (dumpFile cfg r ''add'' False c3)
                          (\<lambda>c4. (None, fileSet_add (svnbranch r) (path r) c4)))))"
    proof (cases "map_of (svnTree c2) (svnbranch r)")
      case None
      then show ?thesis using i2 by simp
    next
      case (Some fs)
      show ?thesis
      proof (cases "path r \<in> paths fs")
        case True
        have "added (requests (out c2)) (svnpath r)"
          unfolding sp using i2 Some k True by (rule change_known)
        then have "replay_inv B s (snd (dumpFile cfg r ''change'' False c2))"
          using i2 by (simp add: dumpFile_inv)
        then show ?thesis using Some True i2 by simp
      next
        case False
        then show ?thesis
          using Some add_file_inv [OF i2 k sp, of cfg False] by simp
      qed
    qed
    then show "post B s (andThen
              (case map_of (svnTree c2) (svnbranch r) of
                 None \<Rightarrow> (Some KeyError, c2)
               | Some newBranchFileSet \<Rightarrow>
                   if path r \<in> paths newBranchFileSet then
                     (if revNumber r \<noteq> ''0'' then dumpFile cfg r ''change'' False c2
                      else (None, c2))
                   else
                     andThen (createParentDirs cfg (svnbranch r) (path r) c2)
                       (\<lambda>c3. andThen (dumpFile cfg r ''add'' False c3)
                          (\<lambda>c4. (None, fileSet_add (svnbranch r) (path r) c4))))
              (processLabels cfg r True))"
      using labels by (intro post_of_inv andThen_inv)
  qed
  show ?thesis
    unfolding process_file_new_def Let_def
    using create_branch_post [OF i1 par, of cfg "svnRevNum c - 1"] rest
    unfolding c1_def by (rule andThen_post)
qed

lemma process_directory_inv:
  assumes i: "replay_inv B s c"
    and k: "svnbranch r \<in> B" and sp: "svnpath r = getSvnBranchPath (svnbranch r) @ ''/'' @ path r"
  shows "replay_inv B s (snd (process_directory cfg r c))"
proof (cases "map_of (svnTree c) (svnbranch r)")
  case None
  then show ?thesis using i by (simp add: process_directory_def)
next
  case (Some fs)
  have mark: "\<And>c3. replay_inv B s c3 \<Longrightarrow>
      replay_inv B s (snd (None :: error option, c3\<lparr>ccTree := insert (path r, revision r) (ccTree c3)\<rparr>))"
  proof -
    fix c3 assume a: "replay_inv B s c3"
    have "replay_inv B s (c3\<lparr>ccTree := insert (path r, revision r) (ccTree c3)\<rparr>) = replay_inv B s c3"
      by (rule inv_cong) simp_all
    then show "replay_inv B s (snd (None :: error option, c3\<lparr>ccTree := insert (path r, revision r) (ccTree c3)\<rparr>))"
      using a by simp
  qed
  have i1: "replay_inv B s (dumpRevisionHeader c)" using i by (rule dumpRevisionHeader_inv)
  have first: "replay_inv B s (snd (if path r \<in> paths fs then (None, c)
               else
                 andThen (createParentDirs cfg (svnbranch r) (path r) (dumpRevisionHeader c))
                   (\<lambda>c1. andThen (out_dumpSvnDir cfg (svnpath r) c1)
                      (\<lambda>c2. (None, fileSet_add (svnbranch r) (path r) c2)))))"
    using i add_dir_inv [OF i1 k sp, of cfg] by simp
  show ?thesis
  proof (cases "paths fs \<noteq> {}")
    case True
    then show ?thesis
      using Some andThen_inv [OF first mark] by (simp add: process_directory_def)
  next
    case False
    then show ?thesis using Some i by (simp add: process_directory_def)
  qed
qed

lemma process_symlink_inv:
  assumes i: "replay_inv B s c"
    and k: "\<And>linkBranch. PUT_CCLINKS_TO_BRANCH cfg = Some linkBranch \<Longrightarrow> linkBranch \<in> B"
  shows "replay_inv B s (snd (process_symlink cfg r0 c))"
proof (cases "PUT_CCLINKS_TO_BRANCH cfg")
  case None
  then show ?thesis using i by (simp add: process_symlink_def)
next
  case (Some linkBranch)
  define r where "r = r0\<lparr>svnbranch := linkBranch, svnpath := getSvnBranchPath linkBranch @ ''/'' @ path r0\<rparr>"
  have kb: "svnbranch r \<in> B" using k [OF Some] by (simp add: r_def)
  have sp: "svnpath r = getSvnBranchPath (svnbranch r) @ ''/'' @ path r" by (simp add: r_def)
  have i1: "replay_inv B s (dumpRevisionHeader c)" using i by (rule dumpRevisionHeader_inv)
  have t1: "svnTree (dumpRevisionHeader c) = svnTree c" by (simp add: dumpRevisionHeader_def Let_def)
  have eq: "process_symlink cfg r0 c =
      (case map_of (svnTree c) (svnbranch r) of
                Some branchFileSet \<Rightarrow>
                  if path r \<in> paths branchFileSet then
                    dumpFile cfg r ''change'' True (dumpRevisionHeader c)
                  else
                    andThen (createParentDirs cfg (svnbranch r) (path r) (dumpRevisionHeader c))
                      (\<lambda>c1. andThen (dumpFile cfg r ''add'' True c1)
                         (\<lambda>c2. (None, fileSet_add (svnbranch r) (path r) c2)))
              | None \<Rightarrow> (None, c))"
    by (simp only: process_symlink_def Some option.case Let_def r_def [symmetric])
  show ?thesis
  proof (cases "map_of (svnTree c) (svnbranch r)")
    case None
    then show ?thesis unfolding eq using i by simp
  next
    case fs: (Some branchFileSet)
    show ?thesis
    proof (cases "path r \<in> paths branchFileSet")
      case True
      have "added (requests (out (dumpRevisionHeader c))) (svnpath r)"
        unfolding sp using i1 fs kb True
        by (intro change_known [of B s "dumpRevisionHeader c" _ branchFileSet]) (simp_all add: t1)
      then have "replay_inv B s (snd (dumpFile cfg r ''change'' True (dumpRevisionHeader c)))"
        using i1 by (simp add: dumpFile_inv)
      then show ?thesis unfolding eq using fs True by simp
    next
      case False
      then show ?thesis
        unfolding eq using fs add_file_inv [OF i1 kb sp, of cfg True] by simp
    qed
  qed
qed

lemma setRevisionProps_inv: "replay_inv B s (setRevisionProps cfg r c) = replay_inv B s c"
  by (rule inv_cong) (simp_all add: setRevisionProps_def Let_def)

lemma derive_svnbranch_in:
  assumes "set (branchNames r) \<subseteq> B" and "''unknown'' \<in> B"
  shows "derive_svnbranch r \<in> B"
  using assms last_in_set [of "branchNames r"] by (auto simp: derive_svnbranch_def)

lemma parent_branch_in:
  assumes "set (branchNames r) \<subseteq> B" and "2 \<le> length (branchNames r)"
  shows "last (butlast (branchNames r)) \<in> B"
proof -
  have "butlast (branchNames r) \<noteq> []" using assms(2) by (cases "branchNames r" rule: rev_cases) auto
  then have "last (butlast (branchNames r)) \<in> set (butlast (branchNames r))" by (rule last_in_set)
  then show ?thesis using assms(1) in_set_butlastD by fastforce
qed

lemma process_post:
  assumes i: "replay_inv B s c"
    and names: "set (branchNames r0) \<subseteq> B" and unknown: "''unknown'' \<in> B"
    and link: "\<And>linkBranch. PUT_CCLINKS_TO_BRANCH cfg = Some linkBranch \<Longrightarrow> linkBranch \<in> B"
    and ls: "\<forall>l \<in> set (cclabels r0). l \<notin> B"
  shows "post B s (process cfg r0 c)"
proof -
  define r where "r = r0\<lparr>svnbranch := derive_svnbranch r0,
                          svnpath := getSvnBranchPath (derive_svnbranch r0) @ ''/'' @ path r0\<rparr>"
  define c1 where "c1 = (case DUMP_SINCE_DATE cfg of
                           None \<Rightarrow> c
                         | Some since \<Rightarrow>
                             if disabled (out c) \<and> seq_gt (date r) since
                             then c\<lparr>out := enable (out c)\<rparr> else c)"
  define c2 where "c2 = setRevisionProps cfg r c1"
  have kb: "svnbranch r \<in> B" using derive_svnbranch_in [OF names unknown] by (simp add: r_def)
  have sp: "svnpath r = getSvnBranchPath (svnbranch r) @ ''/'' @ path r" by (simp add: r_def)
  have par: "2 \<le> length (branchNames r) \<longrightarrow> last (butlast (branchNames r)) \<in> B"
    using parent_branch_in [OF names] by (simp add: r_def)
  have lr: "\<forall>l \<in> set (cclabels r). l \<notin> B" using ls by (simp add: r_def)
  have i1: "replay_inv B s c1"
    using i unfolding c1_def
    by (auto simp: replay_inv_def stream_ok_def tree_ok_def enable_def disabled_def split: option.splits)
  have i2: "replay_inv B s c2" unfolding c2_def using i1 by (simp add: setRevisionProps_inv)
  have p0: "post B s (None, c)" using i by (simp add: post_def)
  have p2: "post B s (None, c2)" using i2 by (simp add: post_def)
  have pf: "post B s (case map_of (svnTree c2) (svnbranch r) of
                          Some branchFileSet \<Rightarrow> process_file_known cfg r branchFileSet c2
                        | None \<Rightarrow> process_file_new cfg r c2)"
  proof (cases "map_of (svnTree c2) (svnbranch r)")
    case None
    then show ?thesis using process_file_new_post [OF i2 kb sp par lr] by simp
  next
    case (Some fs)
    then show ?thesis
      using process_file_known_inv [OF i2 Some kb sp lr] by (simp add: post_of_inv)
  qed
  have pd: "post B s (process_directory cfg r c2)"
    by (rule post_of_inv) (rule process_directory_inv [OF i2 kb sp])
  have ps: "post B s (process_symlink cfg r c2)"
    by (rule post_of_inv) (rule process_symlink_inv [OF i2 link])
  have eq: "process cfg r0 c =
     (if path r0 = ''.'' then (None, c)
      else if (case branches c of None \<Rightarrow> False | Some bs \<Rightarrow> svnbranch r \<notin> set bs) then (None, c)
            else if isIgnored c (path r) then (None, c)
            else if type r = ''version'' then
                    (if operation r = ''checkin'' \<or> operation r = ''mkbranch''
                        \<or> operation r = ''mkelem'' then
                       (case map_of (svnTree c2) (svnbranch r) of
                          Some branchFileSet \<Rightarrow> process_file_known cfg r branchFileSet c2
                        | None \<Rightarrow> process_file_new cfg r c2)
                     else (None, c2))
                  else if type r = ''directory version'' then
                    (if operation r = ''checkin'' \<or> operation r = ''mkbranch''
                        \<or> operation r = ''mkelem'' then process_directory cfg r c2
                     else (None, c2))
                  else if type r = ''symbolic link'' \<and> operation r = ''mkslink'' then
                    process_symlink cfg r c2
                  else (None, c2))"
    unfolding process_def Let_def r_def [symmetric] c1_def [symmetric] c2_def [symmetric] ..
  show ?thesis
    unfolding eq using p0 p2 pf pd ps by simp
qed

lemma replay_post:
  assumes "replay_inv B s c"
    and "\<forall>r \<in> set records. set (branchNames r) \<subseteq> B \<and> (\<forall>l \<in> set (cclabels r). l \<notin> B)"
    and "''unknown'' \<in> B"
    and "\<And>linkBranch. PUT_CCLINKS_TO_BRANCH cfg = Some linkBranch \<Longrightarrow> linkBranch \<in> B"
  shows "post B s (replay cfg records c)"
  using assms(1,2)
proof (induction records arbitrary: c)
  case Nil
  then show ?case by (simp add: post_def)
next
  case (Cons r records)
  have "post B s (process cfg r c)"
    using Cons.prems assms(3,4) by (intro process_post) simp_all
  then show ?case
    using Cons by (simp add: andThen_post)
qed

lemma initializeFile_inv:
  "replay_inv B (DUMP_SINCE_DATE cfg = None) (snd (initializeFile cfg (Converter_init labels0 branches0 ignored0 autoProps0)))"
proof -
  define c where "c = Converter_init labels0 branches0 ignored0 autoProps0"
  define c1 where "c1 = c\<lparr>out := WriteStream_write FormatVersion (out c)\<rparr>"
  define c2 where "c2 = (if DUMP_SINCE_DATE cfg \<noteq> None then c1\<lparr>out := disable (out c1)\<rparr> else c1)"
  have "replay_inv B True c"
    by (simp add: c_def Converter_init_def WriteStream_init_def replay_inv_def stream_ok_def tree_ok_def
          every_change_has_add_def)
  then have "replay_inv B True c1"
    unfolding c1_def by (rule inv_write) simp
  then have i2: "replay_inv B (DUMP_SINCE_DATE cfg = None) c2"
    by (auto simp: c2_def replay_inv_def stream_ok_def tree_ok_def disable_def)
  have eq: "initializeFile cfg c =
      (if SVN_CREATE_BRANCHES_TAGS_DIRS cfg \<noteq> None \<and> SVN_CREATE_BRANCHES_TAGS_DIRS cfg \<noteq> Some [] then
           andThen (out_dumpSvnDir cfg (getSvnBranchPath []) (dumpRevisionHeader c2))
             (out_dumpSvnDir cfg (getSvnTagPath []))
         else (None, c2))"
    unfolding initializeFile_def Let_def c1_def [symmetric] c2_def [symmetric] ..
  have "replay_inv B (DUMP_SINCE_DATE cfg = None) (snd (andThen (out_dumpSvnDir cfg (getSvnBranchPath []) (dumpRevisionHeader c2))
             (out_dumpSvnDir cfg (getSvnTagPath []))))"
    by (intro andThen_inv out_dumpSvnDir_inv dumpRevisionHeader_inv i2)
  then show ?thesis
    unfolding c_def [symmetric] eq using i2 by simp
qed

lemma replay_stream_ok:
  assumes "\<forall>ccRecord \<in> set records. \<forall>l \<in> set (cclabels ccRecord). l \<notin> branch_names cfg records"
  shows "stream_ok (DUMP_SINCE_DATE cfg = None)
           (snd (replay cfg records (snd (initializeFile cfg (Converter_init labels0 branches0 ignored0 autoProps0)))))"
proof (rule post_stream_ok [of "branch_names cfg records"], rule replay_post [OF initializeFile_inv])
  show "\<forall>r\<in>set records. set (branchNames r) \<subseteq> branch_names cfg records
          \<and> (\<forall>l\<in>set (cclabels r). l \<notin> branch_names cfg records)"
    using assms by (auto simp: branch_names_def)
  show "''unknown'' \<in> branch_names cfg records" by (simp add: branch_names_def)
  show "\<And>linkBranch. PUT_CCLINKS_TO_BRANCH cfg = Some linkBranch \<Longrightarrow> linkBranch \<in> branch_names cfg records"
    by (simp add: branch_names_def)
qed

text \<open>
  C6.  Replay a history oldest first, from a new converter, up to its end or to the first
  exception.  If no label of a record is also the name of a branch of the history (the
  converter keeps the file sets of branches and of labels in one dictionary, by name),
  then every file node with the action \<open>change\<close> that the engine asks the stream to write
  comes after a request that added the same path under the same branch: a file node with
  the action \<open>add\<close> or a directory node (written with the action \<open>add\<close>) for that path,
  or the copy that created the branch from a parent branch in which the path had been
  added.  Without cutoff date every request is written, so the same holds of the dump
  file.
\<close>

theorem change_preceded_by_add:
  assumes "\<forall>ccRecord \<in> set records. \<forall>cclabel \<in> set (cclabels ccRecord). cclabel \<notin> branch_names cfg records"
  shows "every_change_has_add (requests (out (snd (replay cfg records
           (snd (initializeFile cfg (Converter_init labels0 branches0 ignored0 autoProps0)))))))
       \<and> (DUMP_SINCE_DATE cfg = None \<longrightarrow>
            every_change_has_add (dumpfile (out (snd (replay cfg records
              (snd (initializeFile cfg (Converter_init labels0 branches0 ignored0 autoProps0))))))))"
  using replay_stream_ok [OF assms, of labels0 branches0 ignored0 autoProps0]
  by (auto simp: stream_ok_def)

theorem change_preceded_by_add_witness:
  "every_change_has_add (requests (out (snd (replay example_config example_history
           (snd (initializeFile example_config (Converter_init None None None [])))))))
   \<and> every_change_has_add (dumpfile (out (snd (replay example_config example_history
           (snd (initializeFile example_config (Converter_init None None None [])))))))
   \<and> file_nodes (requests (out (snd (replay example_config example_history
           (snd (initializeFile example_config (Converter_init None None None [])))))))
      = [(''add'', ''branches/main/f''), (''change'', ''branches/main/f''),
         (''add'', ''branches/dev/g''), (''change'', ''branches/dev/f'')]"
proof -
  have h: "\<forall>ccRecord \<in> set example_history. \<forall>cclabel \<in> set (cclabels ccRecord).
             cclabel \<notin> branch_names example_config example_history"
    by (simp add: example_history_def example_record_def branch_names_def example_config_def)
  have n: "DUMP_SINCE_DATE example_config = None"
    by (simp add: example_config_def)
  have f: "file_nodes (requests (out (snd (replay example_config example_history
           (snd (initializeFile example_config (Converter_init None None None [])))))))
      = [(''add'', ''branches/main/f''), (''change'', ''branches/main/f''),
         (''add'', ''branches/dev/g''), (''change'', ''branches/dev/f'')]"
    by code_simp
  show ?thesis
    using change_preceded_by_add [OF h, of None None None "[]"] n f by blast
qed

text \<open>
  The hypothesis on the names cannot be dropped.  Here \<open>dev\<close> is a label of the first
  record and the branch of the second: the file set made for the label, with the root
  \<open>tags/dev\<close> and the directory \<open>d\<close>, is then taken for the file set of the branch, and a
  \<open>change\<close> of \<open>branches/dev/d\<close> is asked for although nothing was added under
  \<open>branches/dev\<close>.
\<close>

lemma label_named_as_branch:
  "\<not> every_change_has_add (requests (out (snd (replay example_config
       [example_record 2009 ''d/f'' [''main''] ''1'' ''checkin'' [''dev''],
        example_record 2009 ''d'' [''main'', ''dev''] ''1'' ''checkin'' []]
       (snd (initializeFile example_config (Converter_init None None None [])))))))
   \<and> file_nodes (requests (out (snd (replay example_config
       [example_record 2009 ''d/f'' [''main''] ''1'' ''checkin'' [''dev''],
        example_record 2009 ''d'' [''main'', ''dev''] ''1'' ''checkin'' []]
       (snd (initializeFile example_config (Converter_init None None None [])))))))
     = [(''add'', ''branches/main/d/f''), (''change'', ''branches/dev/d'')]"
  by code_simp

end
